theory Spec2Isabelle
  imports Main
begin

section \<open>Platform values: sets of strings, thrown values, URLs\<close>

text \<open>
  A JavaScript \<open>Set<string>\<close> keeps its elements in insertion order and \<open>forEach\<close> visits
  them in that order, so it is a list without repetition: \<open>add\<close> appends an element that
  is not there yet, \<open>has\<close> is membership, \<open>size\<close> is the length.
\<close>

type_synonym str_set = "string list"

definition set_add :: "str_set \<Rightarrow> string \<Rightarrow> str_set" where
  "set_add s x = (if x \<in> set s then s else s @ [x])"

definition set_has :: "str_set \<Rightarrow> string \<Rightarrow> bool" where
  "set_has s x = (x \<in> set s)"

definition set_size :: "str_set \<Rightarrow> nat" where
  "set_size s = length s"

text \<open>
  Anything can be thrown in JavaScript. The crawler's handler keeps an \<open>Error\<close> as it is
  and wraps every other value in \<open>new Error(String(value))\<close>.
\<close>

datatype thrown = ThrownError string | ThrownValue string

datatype js_error = JsError string

fun to_error :: "thrown \<Rightarrow> js_error" where
  "to_error (ThrownError m) = JsError m"
| "to_error (ThrownValue v) = JsError v"

fun message :: "js_error \<Rightarrow> string" where
  "message (JsError m) = m"

text \<open>
  The \<open>URL\<close> class belongs to the platform, not to the repository. The crawler uses four
  of its operations, which are taken as a parameter: the constructor \<open>new URL(input)\<close> or
  \<open>new URL(input, base)\<close> (\<open>None\<close> when it throws), the \<open>hostname\<close> getter, the
  assignment \<open>hash = ''\<close> and the \<open>href\<close> getter.
\<close>

record 'u url_api =
  url_new :: "string \<Rightarrow> 'u option \<Rightarrow> 'u option"
  url_hostname :: "'u \<Rightarrow> string"
  url_clear_hash :: "'u \<Rightarrow> 'u"
  url_href :: "'u \<Rightarrow> string"

section \<open>getDomain and normalizeUrl\<close>

definition getDomain :: "'u url_api \<Rightarrow> string \<Rightarrow> string" where
  "getDomain api url =
     (case url_new api url None of
        Some urlObj \<Rightarrow> url_hostname api urlObj
      | None \<Rightarrow> [])"

definition normalizeUrl :: "'u url_api \<Rightarrow> string \<Rightarrow> string \<Rightarrow> string option" where
  "normalizeUrl api url baseUrl =
     (case url_new api baseUrl None of
        None \<Rightarrow> None
      | Some base \<Rightarrow>
          (case url_new api url (Some base) of
             None \<Rightarrow> None
           | Some resolved \<Rightarrow> Some (url_href api (url_clear_hash api resolved))))"

section \<open>extractLinks\<close>

text \<open>
  The link pattern is \<open><a[^>]+href=["']([^"']+)["']\<close> with the flags \<open>g\<close> and \<open>i\<close>.
  Without the \<open>u\<close> flag, case-insensitive matching of an ASCII letter accepts its two
  ASCII cases only.
\<close>

definition is_quote :: "char \<Rightarrow> bool" where
  "is_quote c = (c = CHR 0x22 \<or> c = CHR 0x27)"

definition not_quote :: "char \<Rightarrow> bool" where
  "not_quote c = (\<not> is_quote c)"

definition ci_eq :: "char \<Rightarrow> char \<Rightarrow> char \<Rightarrow> bool" where
  "ci_eq lower upper c = (c = lower \<or> c = upper)"

text \<open>
  \<open>href_at s\<close> matches \<open>href=["']([^"']+)["']\<close> at the start of \<open>s\<close>: the capture is
  the longest run of characters that are not quotes, it is not empty and a quote of either
  kind follows it. The result is the capture and the text after the closing quote.
\<close>

fun href_at :: "string \<Rightarrow> (string \<times> string) option" where
  "href_at (h # r # e # f # eq # qt # rest) =
     (if ci_eq CHR ''h'' CHR ''H'' h \<and> ci_eq CHR ''r'' CHR ''R'' r \<and>
         ci_eq CHR ''e'' CHR ''E'' e \<and> ci_eq CHR ''f'' CHR ''F'' f \<and>
         eq = CHR ''='' \<and> is_quote qt
      then (let cap = takeWhile not_quote rest; after = dropWhile not_quote rest
            in if cap \<noteq> [] \<and> after \<noteq> [] then Some (cap, tl after) else None)
      else None)"
| "href_at _ = None"

text \<open>
  \<open>attrs_then_href s\<close> matches \<open>[^>]+href=["']([^"']+)["']\<close> at the start of \<open>s\<close>.
  The quantifier is greedy: after taking one character it first tries to take more, and
  only when that fails does it try \<open>href=\<close> at the current position.
\<close>

fun attrs_then_href :: "string \<Rightarrow> (string \<times> string) option" where
  "attrs_then_href [] = None"
| "attrs_then_href (c # s) =
     (if c = CHR ''>'' then None
      else (case attrs_then_href s of
              Some m \<Rightarrow> Some m
            | None \<Rightarrow> href_at s))"

fun match_here :: "string \<Rightarrow> (string \<times> string) option" where
  "match_here (lt # a # s) =
     (if lt = CHR ''<'' \<and> ci_eq CHR ''a'' CHR ''A'' a then attrs_then_href s else None)"
| "match_here _ = None"

lemma href_at_shorter: "href_at s = Some (cap, rest) \<Longrightarrow> length rest < length s"
proof (cases s rule: href_at.cases)
  case (1 h r e f eq qt body)
  assume m: "href_at s = Some (cap, rest)"
  from m 1 have rest: "rest = tl (dropWhile not_quote body)"
    by (auto simp: Let_def split: if_splits)
  have "length (dropWhile not_quote body) \<le> length body"
    by (rule length_dropWhile_le)
  then have "length (tl (dropWhile not_quote body)) \<le> length body"
    by simp
  with rest 1 show ?thesis by simp
qed auto

lemma attrs_then_href_shorter:
  "attrs_then_href s = Some (cap, rest) \<Longrightarrow> length rest < length s"
proof (induction s)
  case Nil
  then show ?case by simp
next
  case (Cons c s)
  then show ?case
    by (auto split: if_splits option.splits dest: href_at_shorter)
qed

lemma match_here_shorter: "match_here s = Some (cap, rest) \<Longrightarrow> length rest < length s"
proof (cases s rule: match_here.cases)
  case (1 lt a body)
  assume "match_here s = Some (cap, rest)"
  with 1 have "attrs_then_href body = Some (cap, rest)"
    by (auto split: if_splits)
  from attrs_then_href_shorter [OF this] 1 show ?thesis by simp
qed auto

text \<open>
  The \<open>exec\<close> loop: the leftmost match from the current position, then the search goes on
  after that match (\<open>lastIndex\<close>). When no match starts at the current position the
  next position is tried.
\<close>

function scan_hrefs :: "string \<Rightarrow> string list" where
  "scan_hrefs [] = []"
| "scan_hrefs (c # s) =
     (case match_here (c # s) of
        Some (cap, rest) \<Rightarrow> cap # scan_hrefs rest
      | None \<Rightarrow> scan_hrefs s)"
  by pat_completeness auto

termination
  by (relation "measure length") (auto dest: match_here_shorter)

definition href_matches :: "string \<Rightarrow> string list" where
  "href_matches html = scan_hrefs html"

definition add_link :: "'u url_api \<Rightarrow> string \<Rightarrow> str_set \<Rightarrow> string \<Rightarrow> str_set" where
  "add_link api baseUrl links href =
     (case normalizeUrl api href baseUrl of
        None \<Rightarrow> links
      | Some normalized \<Rightarrow> if normalized = [] then links else set_add links normalized)"

definition extractLinks :: "'u url_api \<Rightarrow> string \<Rightarrow> string \<Rightarrow> str_set" where
  "extractLinks api html baseUrl = foldl (add_link api baseUrl) [] (href_matches html)"

section \<open>The crawl controller: options, collaborators, state\<close>

datatype wait_until = Load | DomContentLoaded | NetworkIdle

text \<open>
  A browser page as the controller sees it: the outcome of each of the four operations
  the controller performs on it. \<open>page_emails\<close> is what \<open>scrapeEmailsFromPage\<close> (module
  \<open>webpageScraper\<close>) returns for this page. A browser maps the URL the controller is
  working on to the outcome of \<open>newPage()\<close> at that moment.
\<close>

record page =
  page_goto :: "string \<Rightarrow> wait_until \<Rightarrow> int \<Rightarrow> thrown option"
  page_content :: "thrown + string"
  page_emails :: "thrown + str_set"
  page_close :: "thrown option"

type_synonym browser = "string \<Rightarrow> thrown + page"

text \<open>
  \<open>WebsiteCrawlerOptions\<close>: every field is optional. A callback is either given or not;
  its calls are recorded in the event log of the run, and it returns normally. The numbers
  are integers, as the interface of the crawler describes them.
\<close>

record options =
  opt_maxDepth :: "int option"
  opt_maxPages :: "int option"
  opt_sameDomainOnly :: "bool option"
  opt_waitUntil :: "wait_until option"
  opt_timeout :: "int option"
  opt_useBrowser :: "bool option"
  opt_browser :: "browser option"
  opt_onPageVisited :: bool
  opt_onError :: bool

record config =
  maxDepth :: int
  maxPages :: int
  sameDomainOnly :: bool
  waitUntil :: wait_until
  timeout :: int
  useBrowser :: bool
  browser :: "browser option"
  onPageVisited :: bool
  onError :: bool

definition or_default :: "'a option \<Rightarrow> 'a \<Rightarrow> 'a" where
  "or_default v d = (case v of None \<Rightarrow> d | Some x \<Rightarrow> x)"

definition destructure :: "options \<Rightarrow> config" where
  "destructure opts =
     \<lparr> maxDepth = or_default (opt_maxDepth opts) 3,
       maxPages = or_default (opt_maxPages opts) 50,
       sameDomainOnly = or_default (opt_sameDomainOnly opts) True,
       waitUntil = or_default (opt_waitUntil opts) Load,
       timeout = or_default (opt_timeout opts) 30000,
       useBrowser = or_default (opt_useBrowser opts) False,
       browser = opt_browser opts,
       onPageVisited = opt_onPageVisited opts,
       onError = opt_onError opts \<rparr>"

text \<open>
  The network and the text extractor: \<open>fetch\<close> is the platform's function of that name
  and \<open>extractAndNormalizeEmails\<close> is the function of module \<open>emailExtractor\<close>.
\<close>

record response =
  ok :: bool
  status :: int
  text_outcome :: "thrown + string"

record world =
  fetch :: "string \<Rightarrow> thrown + response"
  extractAndNormalizeEmails :: "string \<Rightarrow> str_set"

datatype entry = Entry (url: string) (depth: nat)

text \<open>
  What the run does to the outside, in order: the calls to \<open>fetch\<close>, to the browser and
  its pages, to the two callbacks and to \<open>console.error\<close>. The events of a fetch carry the
  depth of the frontier entry they are made for.
\<close>

datatype event =
    HttpFetch string nat
  | NewPageFailed string nat
  | PageOpened string nat
  | PageGoto string nat
  | PageContent string
  | PageScrape string
  | PageClose string
  | OnPageVisited string nat nat
  | OnError string js_error
  | ConsoleError string string

record state =
  toVisit :: "entry list"
  visited :: str_set
  allEmails :: str_set
  log :: "event list"

section \<open>The two fetch strategies\<close>

text \<open>Decimal digits of a number that is not negative (a status code, a port).\<close>

definition digit_char :: "int \<Rightarrow> char" where
  "digit_char n = ''0123456789'' ! nat n"

function show_int :: "int \<Rightarrow> string" where
  "show_int n = (if n < 10 then [digit_char n] else show_int (n div 10) @ [digit_char (n mod 10)])"
  by pat_completeness auto

termination
  by (relation "measure nat") auto

declare show_int.simps [simp del]

type_synonym fetched = "event list \<times> (thrown + str_set \<times> string)"

definition page_steps :: "config \<Rightarrow> page \<Rightarrow> string \<Rightarrow> nat \<Rightarrow> fetched" where
  "page_steps cfg pg u d =
     (case page_goto pg u (waitUntil cfg) (timeout cfg) of
        Some t \<Rightarrow> ([PageGoto u d], Inl t)
      | None \<Rightarrow>
          (case page_content pg of
             Inl t \<Rightarrow> ([PageGoto u d, PageContent u], Inl t)
           | Inr html \<Rightarrow>
               (case page_emails pg of
                  Inl t \<Rightarrow> ([PageGoto u d, PageContent u, PageScrape u], Inl t)
                | Inr emails \<Rightarrow>
                    ([PageGoto u d, PageContent u, PageScrape u], Inr (emails, html)))))"

text \<open>
  The \<open>try ... finally\<close> around the page: \<open>close\<close> runs whatever the body did, and an
  exception of \<open>close\<close> replaces the body's result.
\<close>

definition browser_fetch :: "config \<Rightarrow> browser \<Rightarrow> string \<Rightarrow> nat \<Rightarrow> fetched" where
  "browser_fetch cfg br u d =
     (case br u of
        Inl t \<Rightarrow> ([NewPageFailed u d], Inl t)
      | Inr pg \<Rightarrow>
          (let (evs, res) = page_steps cfg pg u d
           in (case page_close pg of
                 Some t \<Rightarrow> (PageOpened u d # evs @ [PageClose u], Inl t)
               | None \<Rightarrow> (PageOpened u d # evs @ [PageClose u], res))))"

definition http_fetch :: "world \<Rightarrow> string \<Rightarrow> nat \<Rightarrow> fetched" where
  "http_fetch w u d =
     (case fetch w u of
        Inl t \<Rightarrow> ([HttpFetch u d], Inl t)
      | Inr resp \<Rightarrow>
          if \<not> ok resp
          then ([HttpFetch u d], Inl (ThrownError (''HTTP error! status: '' @ show_int (status resp))))
          else (case text_outcome resp of
                  Inl t \<Rightarrow> ([HttpFetch u d], Inl t)
                | Inr html \<Rightarrow> ([HttpFetch u d], Inr (extractAndNormalizeEmails w html, html))))"

text \<open>The test \<open>useBrowser && browser\<close> chooses the strategy.\<close>

definition fetch_page :: "world \<Rightarrow> config \<Rightarrow> string \<Rightarrow> nat \<Rightarrow> fetched" where
  "fetch_page w cfg u d =
     (case browser cfg of
        Some br \<Rightarrow> if useBrowser cfg then browser_fetch cfg br u d else http_fetch w u d
      | None \<Rightarrow> http_fetch w u d)"

section \<open>The loop of scrapeEmailsFromWebsite\<close>

definition report_error :: "config \<Rightarrow> string \<Rightarrow> thrown \<Rightarrow> event" where
  "report_error cfg u t =
     (if onError cfg then OnError u (to_error t) else ConsoleError u (message (to_error t)))"

definition notify_visit :: "config \<Rightarrow> string \<Rightarrow> nat \<Rightarrow> str_set \<Rightarrow> event list" where
  "notify_visit cfg u d emails = (if onPageVisited cfg then [OnPageVisited u d (set_size emails)] else [])"

definition in_scope :: "'u url_api \<Rightarrow> config \<Rightarrow> string \<Rightarrow> string \<Rightarrow> bool" where
  "in_scope api cfg startDomain u = (\<not> sameDomainOnly cfg \<or> getDomain api u = startDomain)"

definition new_entries :: "'u url_api \<Rightarrow> config \<Rightarrow> string \<Rightarrow> str_set \<Rightarrow> nat \<Rightarrow> str_set \<Rightarrow> entry list" where
  "new_entries api cfg startDomain vis d links =
     map (\<lambda>link. Entry link (d + 1))
       (filter (\<lambda>link. \<not> set_has vis link \<and> in_scope api cfg startDomain link) links)"

definition loop_cond :: "config \<Rightarrow> state \<Rightarrow> bool" where
  "loop_cond cfg st = (toVisit st \<noteq> [] \<and> int (set_size (visited st)) < maxPages cfg)"

text \<open>
  The part of the loop body after \<open>visited.add(url)\<close>: the \<open>try\<close> block with its
  handler. \<open>st\<close> is the state with the entry already removed and the URL already marked.
\<close>

definition process_page :: "'u url_api \<Rightarrow> world \<Rightarrow> config \<Rightarrow> string \<Rightarrow> string \<Rightarrow> nat \<Rightarrow> state \<Rightarrow> state" where
  "process_page api w cfg startDomain u d st =
     (case fetch_page w cfg u d of
        (evs, Inl t) \<Rightarrow> st\<lparr>log := log st @ evs @ [report_error cfg u t]\<rparr>
      | (evs, Inr (emails, html)) \<Rightarrow>
          (let st' = st\<lparr>allEmails := foldl set_add (allEmails st) emails,
                        log := log st @ evs @ notify_visit cfg u d emails\<rparr>
           in if int d < maxDepth cfg
              then st'\<lparr>toVisit := toVisit st' @
                         new_entries api cfg startDomain (visited st') d (extractLinks api html u)\<rparr>
              else st'))"

definition loop_body :: "'u url_api \<Rightarrow> world \<Rightarrow> config \<Rightarrow> string \<Rightarrow> state \<Rightarrow> state" where
  "loop_body api w cfg startDomain st =
     (case toVisit st of
        [] \<Rightarrow> st
      | e # rest \<Rightarrow>
          (let st' = st\<lparr>toVisit := rest\<rparr>
           in if set_has (visited st) (url e) then st'
              else if int (depth e) > maxDepth cfg then st'
              else if sameDomainOnly cfg \<and> getDomain api (url e) \<noteq> startDomain then st'
              else process_page api w cfg startDomain (url e) (depth e)
                     (st'\<lparr>visited := set_add (visited st) (url e)\<rparr>)))"

lemma visited_process_page [simp]:
  "visited (process_page api w cfg sd u d st) = visited st"
  by (simp add: process_page_def Let_def split: prod.splits sum.splits)

text \<open>
  Every iteration either drops the head of the frontier and leaves the visited set alone,
  or marks one more URL.
\<close>

lemma loop_body_progress:
  assumes "loop_cond cfg st"
  shows "(visited (loop_body api w cfg sd st) = visited st \<and>
          length (toVisit (loop_body api w cfg sd st)) < length (toVisit st)) \<or>
         (set_size (visited (loop_body api w cfg sd st)) = Suc (set_size (visited st)))"
proof (cases "toVisit st")
  case Nil
  with assms show ?thesis by (simp add: loop_cond_def)
next
  case (Cons e rest)
  then show ?thesis
    by (simp add: loop_body_def Let_def set_has_def set_add_def set_size_def)
qed

text \<open>
  The \<open>while\<close> loop. It terminates: the page budget left and then the length of the
  frontier decrease lexicographically.
\<close>

function run :: "'u url_api \<Rightarrow> world \<Rightarrow> config \<Rightarrow> string \<Rightarrow> state \<Rightarrow> state" where
  "run api w cfg startDomain st =
     (if loop_cond cfg st then run api w cfg startDomain (loop_body api w cfg startDomain st) else st)"
  by pat_completeness auto

termination
  apply (relation "measures [\<lambda>(api, w, cfg, sd, st). nat (maxPages cfg - int (set_size (visited st))),
                             \<lambda>(api, w, cfg, sd, st). length (toVisit st)]")
   apply simp
  subgoal for api w cfg sd st
    using loop_body_progress [of cfg st api w sd] by (auto simp: loop_cond_def)
  done

declare run.simps [simp del]

text \<open>The state after at most \<open>n\<close> iterations: the points of the run between iterations.\<close>

fun steps :: "'u url_api \<Rightarrow> world \<Rightarrow> config \<Rightarrow> string \<Rightarrow> nat \<Rightarrow> state \<Rightarrow> state" where
  "steps api w cfg startDomain 0 st = st"
| "steps api w cfg startDomain (Suc n) st =
     (if loop_cond cfg st then steps api w cfg startDomain n (loop_body api w cfg startDomain st) else st)"

definition initial_state :: "string \<Rightarrow> state" where
  "initial_state startUrl = \<lparr> toVisit = [Entry startUrl 0], visited = [], allEmails = [], log = [] \<rparr>"

definition crawl :: "'u url_api \<Rightarrow> world \<Rightarrow> string \<Rightarrow> options \<Rightarrow> state" where
  "crawl api w startUrl opts =
     run api w (destructure opts) (getDomain api startUrl) (initial_state startUrl)"

definition crawl_steps :: "'u url_api \<Rightarrow> world \<Rightarrow> string \<Rightarrow> options \<Rightarrow> nat \<Rightarrow> state" where
  "crawl_steps api w startUrl opts n =
     steps api w (destructure opts) (getDomain api startUrl) n (initial_state startUrl)"

definition scrapeEmailsFromWebsite :: "'u url_api \<Rightarrow> world \<Rightarrow> string \<Rightarrow> options \<Rightarrow> str_set" where
  "scrapeEmailsFromWebsite api w startUrl opts = allEmails (crawl api w startUrl opts)"

section \<open>A URL parser for the examples\<close>

text \<open>
  The scenarios of the specification name concrete URLs, so they need a concrete
  \<open>URL\<close> class. \<open>basic_url_api\<close> follows the URL Standard on the inputs it accepts:
  \<open>http\<close> and \<open>https\<close> URLs written with \<open>//\<close>, a host of ASCII letters, digits and
  dots that ends in a letter, an optional decimal port, and a path, query and fragment of
  characters that the standard leaves as they are; and references relative to such a URL.
  It rejects every other input, also inputs the platform accepts (credentials, other
  schemes, characters to escape, white space, backslashes, numeric hosts), so it is used
  for the examples only: every general theorem below holds for any \<open>url_api\<close>.
\<close>

record url_record =
  u_scheme :: string
  u_host :: string
  u_port :: "int option"
  u_path :: "string list"
  u_query :: "string option"
  u_fragment :: "string option"

definition lower_letters :: string where
  "lower_letters = ''abcdefghijklmnopqrstuvwxyz''"

definition upper_letters :: string where
  "upper_letters = ''ABCDEFGHIJKLMNOPQRSTUVWXYZ''"

definition digits :: string where
  "digits = ''0123456789''"

definition is_alpha :: "char \<Rightarrow> bool" where
  "is_alpha c = (c \<in> set lower_letters \<or> c \<in> set upper_letters)"

definition is_digit :: "char \<Rightarrow> bool" where
  "is_digit c = (c \<in> set digits)"

definition lower_char :: "char \<Rightarrow> char" where
  "lower_char c = (case map_of (zip upper_letters lower_letters) c of Some l \<Rightarrow> l | None \<Rightarrow> c)"

definition digit_value :: "char \<Rightarrow> int" where
  "digit_value c = (case map_of (zip digits [0, 1, 2, 3, 4, 5, 6, 7, 8, 9]) c of Some v \<Rightarrow> v | None \<Rightarrow> 0)"

definition plain_char :: "char \<Rightarrow> bool" where
  "plain_char c = (is_alpha c \<or> is_digit c \<or> c \<in> set ''-._~=&+/:?#'')"

definition scheme_char :: "char \<Rightarrow> bool" where
  "scheme_char c = (is_alpha c \<or> is_digit c \<or> c \<in> set ''+-.'')"

definition split_first :: "char \<Rightarrow> string \<Rightarrow> string \<times> string option" where
  "split_first c s =
     (takeWhile (\<lambda>x. x \<noteq> c) s,
      if c \<in> set s then Some (tl (dropWhile (\<lambda>x. x \<noteq> c) s)) else None)"

fun split_on :: "char \<Rightarrow> string \<Rightarrow> string list" where
  "split_on c [] = [[]]"
| "split_on c (x # xs) =
     (if x = c then [] # split_on c xs
      else (case split_on c xs of
              [] \<Rightarrow> [[x]]
            | y # ys \<Rightarrow> (x # y) # ys))"

text \<open>
  The path state of the URL Standard: a \<open>..\<close> segment removes the last segment, a \<open>.\<close>
  segment is dropped, and either of them at the end of the path leaves an empty segment.
\<close>

fun path_segs :: "string list \<Rightarrow> string list \<Rightarrow> string list" where
  "path_segs acc [] = acc"
| "path_segs acc [s] =
     (if s = ''..'' then butlast acc @ [[]]
      else if s = ''.'' then acc @ [[]]
      else acc @ [s])"
| "path_segs acc (s # ss) =
     (if s = ''..'' then path_segs (butlast acc) ss
      else if s = ''.'' then path_segs acc ss
      else path_segs (acc @ [s]) ss)"

definition parse_scheme :: "string \<Rightarrow> (string \<times> string) option" where
  "parse_scheme s =
     (let sc = takeWhile scheme_char s; rest = dropWhile scheme_char s
      in if sc \<noteq> [] \<and> is_alpha (hd sc) \<and> rest \<noteq> [] \<and> hd rest = CHR '':''
         then Some (map lower_char sc, tl rest) else None)"

definition digits_value :: "string \<Rightarrow> int" where
  "digits_value ds = foldl (\<lambda>n c. 10 * n + digit_value c) 0 ds"

definition default_port :: "string \<Rightarrow> int" where
  "default_port sc = (if sc = ''https'' then 443 else 80)"

definition parse_port :: "string \<Rightarrow> string option \<Rightarrow> (int option) option" where
  "parse_port sc p =
     (case p of
        None \<Rightarrow> Some None
      | Some ds \<Rightarrow>
          if \<not> list_all is_digit ds \<or> 5 < length ds then None
          else if ds = [] then Some None
          else if 65535 < digits_value ds then None
          else if digits_value ds = default_port sc then Some None
          else Some (Some (digits_value ds)))"

definition valid_host :: "string \<Rightarrow> bool" where
  "valid_host h =
     (h \<noteq> [] \<and> list_all (\<lambda>c. is_alpha c \<or> is_digit c \<or> c = CHR ''.'') h \<and>
      is_alpha (last h) \<and> hd h \<noteq> CHR ''.'')"

definition path_of :: "string \<Rightarrow> string list" where
  "path_of p = (if p = [] then [[]] else path_segs [] (split_on CHR ''/'' (tl p)))"

text \<open>The part of an absolute URL after \<open>//\<close>: host, port and path.\<close>

definition parse_authority_path ::
    "string \<Rightarrow> string \<Rightarrow> string option \<Rightarrow> string option \<Rightarrow> url_record option" where
  "parse_authority_path sc r qry frag =
     (let auth = takeWhile (\<lambda>x. x \<noteq> CHR ''/'') r;
          p = dropWhile (\<lambda>x. x \<noteq> CHR ''/'') r;
          (h, prt) = split_first CHR '':'' auth
      in if \<not> valid_host h then None
         else (case parse_port sc prt of
                 None \<Rightarrow> None
               | Some port \<Rightarrow>
                   Some \<lparr> u_scheme = sc, u_host = map lower_char h, u_port = port,
                          u_path = path_of p, u_query = qry, u_fragment = frag \<rparr>))"

definition resolve_relative ::
    "url_record \<Rightarrow> string \<Rightarrow> string option \<Rightarrow> string option \<Rightarrow> url_record option" where
  "resolve_relative b s qry frag =
     (if take 2 s = ''//'' then parse_authority_path (u_scheme b) (drop 2 s) qry frag
      else if take 1 s = ''/'' then
        Some (b\<lparr>u_path := path_segs [] (split_on CHR ''/'' (tl s)), u_query := qry, u_fragment := frag\<rparr>)
      else if s = [] then
        Some (b\<lparr>u_query := (case qry of None \<Rightarrow> u_query b | Some q \<Rightarrow> Some q), u_fragment := frag\<rparr>)
      else
        Some (b\<lparr>u_path := path_segs (butlast (u_path b)) (split_on CHR ''/'' s),
                 u_query := qry, u_fragment := frag\<rparr>))"

definition basic_url_new :: "string \<Rightarrow> url_record option \<Rightarrow> url_record option" where
  "basic_url_new input base =
     (if \<not> list_all plain_char input then None
      else
        (let (s1, frag) = split_first CHR ''#'' input;
             (s2, qry) = split_first CHR ''?'' s1
         in (case parse_scheme s2 of
               Some (sc, rest) \<Rightarrow>
                 if (sc = ''http'' \<or> sc = ''https'') \<and> take 2 rest = ''//''
                 then parse_authority_path sc (drop 2 rest) qry frag
                 else None
             | None \<Rightarrow>
                 (case base of
                    None \<Rightarrow> None
                  | Some b \<Rightarrow> resolve_relative b s2 qry frag))))"

definition basic_url_href :: "url_record \<Rightarrow> string" where
  "basic_url_href u =
     u_scheme u @ ''://'' @ u_host u @
     (case u_port u of None \<Rightarrow> [] | Some p \<Rightarrow> '':'' @ show_int p) @
     concat (map (\<lambda>seg. ''/'' @ seg) (u_path u)) @
     (case u_query u of None \<Rightarrow> [] | Some q \<Rightarrow> ''?'' @ q) @
     (case u_fragment u of None \<Rightarrow> [] | Some f \<Rightarrow> ''#'' @ f)"

definition basic_url_api :: "url_record url_api" where
  "basic_url_api =
     \<lparr> url_new = basic_url_new,
       url_hostname = u_host,
       url_clear_hash = (\<lambda>u. u\<lparr>u_fragment := None\<rparr>),
       url_href = basic_url_href \<rparr>"

section \<open>Notions used in the statements\<close>

text \<open>
  The entries the controller hands to the fetch strategy, in order: every such entry
  leaves exactly one of these three events in the log, then the events of the strategy.
\<close>

fun fetch_attempt :: "event \<Rightarrow> entry option" where
  "fetch_attempt (HttpFetch u d) = Some (Entry u d)"
| "fetch_attempt (NewPageFailed u d) = Some (Entry u d)"
| "fetch_attempt (PageOpened u d) = Some (Entry u d)"
| "fetch_attempt _ = None"

fun attempts :: "event list \<Rightarrow> entry list" where
  "attempts [] = []"
| "attempts (x # xs) = (case fetch_attempt x of None \<Rightarrow> attempts xs | Some e \<Rightarrow> e # attempts xs)"

text \<open>
  \<open>passes\<close> is the conjunction of the three tests an entry must pass, after it has
  left the frontier, to be marked and fetched. \<open>in_domain\<close> says that an entry has the
  given domain.
\<close>

definition passes :: "'u url_api \<Rightarrow> config \<Rightarrow> string \<Rightarrow> str_set \<Rightarrow> entry \<Rightarrow> bool" where
  "passes api cfg startDomain vis e =
     (\<not> set_has vis (url e) \<and> \<not> int (depth e) > maxDepth cfg \<and>
      \<not> (sameDomainOnly cfg \<and> getDomain api (url e) \<noteq> startDomain))"

definition in_domain :: "'u url_api \<Rightarrow> string \<Rightarrow> entry \<Rightarrow> bool" where
  "in_domain api startDomain e = (getDomain api (url e) = startDomain)"

text \<open>
  Breadth-first order: the depths of the processed entries followed by the depths waiting
  in the frontier are nondecreasing, and the frontier spans at most two levels.
\<close>

definition level_order :: "state \<Rightarrow> bool" where
  "level_order s =
     (sorted (map depth (attempts (log s)) @ map depth (toVisit s)) \<and>
      list_all (\<lambda>x. list_all (\<lambda>y. depth y \<le> depth x + 1) (toVisit s)) (toVisit s))"

text \<open>The URLs handed to the fetch strategy are exactly the visited set, in order.\<close>

definition fetched_once :: "state \<Rightarrow> bool" where
  "fetched_once s = (map url (attempts (log s)) = visited s \<and> distinct (visited s))"

text \<open>
  Every entry waiting in the frontier would pass the depth and scope tests; the only
  exception is the start entry of a run whose depth limit is negative.
\<close>

definition admissible :: "'u url_api \<Rightarrow> config \<Rightarrow> string \<Rightarrow> entry \<Rightarrow> bool" where
  "admissible api cfg sd e = (int (depth e) \<le> maxDepth cfg \<and> in_scope api cfg sd (url e))"

definition frontier_ok :: "'u url_api \<Rightarrow> config \<Rightarrow> string \<Rightarrow> state \<Rightarrow> bool" where
  "frontier_ok api cfg sd s =
     (list_all (admissible api cfg sd) (toVisit s) \<or>
      (length (toVisit s) = 1 \<and> list_all (\<lambda>e. maxDepth cfg < int (depth e)) (toVisit s)))"

text \<open>
  \<open>page_track\<close> follows the page that is open while the log is read: a page is opened
  only when none is open, the page operations belong to the open page, and every other
  event (an HTTP fetch, a failed \<open>newPage\<close>, a callback, an error line) happens while no
  page is open. \<open>None\<close> is a violation. \<open>scoped cur evs\<close> holds when \<open>evs\<close> obeys this
  from the situation \<open>cur\<close> and ends with no page open.
\<close>

fun page_track :: "string option \<Rightarrow> event \<Rightarrow> string option option" where
  "page_track None (PageOpened u d) = Some (Some u)"
| "page_track (Some v) (PageOpened u d) = None"
| "page_track (Some v) (PageGoto u d) = (if u = v then Some (Some v) else None)"
| "page_track (Some v) (PageContent u) = (if u = v then Some (Some v) else None)"
| "page_track (Some v) (PageScrape u) = (if u = v then Some (Some v) else None)"
| "page_track (Some v) (PageClose u) = (if u = v then Some None else None)"
| "page_track None (PageGoto u d) = None"
| "page_track None (PageContent u) = None"
| "page_track None (PageScrape u) = None"
| "page_track None (PageClose u) = None"
| "page_track None _ = Some None"
| "page_track (Some v) _ = None"

fun scoped :: "string option \<Rightarrow> event list \<Rightarrow> bool" where
  "scoped cur [] = (cur = None)"
| "scoped cur (x # xs) = (case page_track cur x of None \<Rightarrow> False | Some cur' \<Rightarrow> scoped cur' xs)"

text \<open>
  The shape of a match of the link pattern, read off the regular expression of the source:
  \<open><a\<close>, at least one character and no \<open>>\<close>, then \<open>href=\<close> in any case, a quote,
  the captured value, a quote; the value is not empty and holds no quote. The shape is
  wider than the \<open>href\<close> attribute of an anchor: the tag name only starts with \<open>a\<close>, the
  attribute name only ends in \<open>href\<close>, the text may lie inside the value of another
  attribute, and the two quotes need not be the same.
\<close>

definition is_href_keyword :: "string \<Rightarrow> bool" where
  "is_href_keyword kw =
     (case kw of
        [h, r, e, f, eq] \<Rightarrow>
          ci_eq CHR ''h'' CHR ''H'' h \<and> ci_eq CHR ''r'' CHR ''R'' r \<and>
          ci_eq CHR ''e'' CHR ''E'' e \<and> ci_eq CHR ''f'' CHR ''F'' f \<and> eq = CHR ''=''
      | _ \<Rightarrow> False)"

definition href_capture :: "string \<Rightarrow> string \<Rightarrow> string \<Rightarrow> bool" where
  "href_capture s h rest =
     (\<exists>kw q1 q2. s = kw @ [q1] @ h @ [q2] @ rest \<and> is_href_keyword kw \<and>
        is_quote q1 \<and> is_quote q2 \<and> h \<noteq> [] \<and> list_all not_quote h)"

definition pattern_capture :: "string \<Rightarrow> string \<Rightarrow> bool" where
  "pattern_capture html h =
     (\<exists>pre a mid tail rest. html = pre @ [CHR ''<'', a] @ mid @ tail \<and> ci_eq CHR ''a'' CHR ''A'' a \<and>
        mid \<noteq> [] \<and> CHR ''>'' \<notin> set mid \<and> href_capture tail h rest)"

text \<open>
  The specification describes what \<open>extractLinks\<close> scans for in other words: the values
  of the \<open>href\<close> attributes of anchors, in single or double quotes. \<open>spec_anchor_hrefs\<close>
  follows these words, as a scan of the text like the one of the source: an anchor tag is
  \<open><a\<close> followed by white space, up to the next \<open>>\<close> outside a quoted value; its
  attributes are names, each with an optional \<open>=\<close> and value; a quoted value runs from a
  quote to the next quote of the same kind. The values returned are the quoted values of
  the attributes named \<open>href\<close>, in any case. \<open>spec_extractLinks_sound\<close> is the
  specification's sentence about the result: every link returned is the resolution of one
  of these values.
\<close>

datatype scan_mode =
    InText
  | AfterLt
  | AfterLtA
  | BetweenAttrs
  | InName string
  | AfterName string
  | AfterEq string
  | InQuoted string char string
  | InUnquoted

definition is_space :: "char \<Rightarrow> bool" where
  "is_space c = (c = CHR '' '' \<or> c = CHR 0x09 \<or> c = CHR 0x0A \<or> c = CHR 0x0C \<or> c = CHR 0x0D)"

fun spec_scan :: "scan_mode \<Rightarrow> string \<Rightarrow> string list" where
  "spec_scan m [] = []"
| "spec_scan InText (c # s) = spec_scan (if c = CHR ''<'' then AfterLt else InText) s"
| "spec_scan AfterLt (c # s) =
     spec_scan (if ci_eq CHR ''a'' CHR ''A'' c then AfterLtA
                else if c = CHR ''<'' then AfterLt else InText) s"
| "spec_scan AfterLtA (c # s) =
     spec_scan (if is_space c then BetweenAttrs
                else if c = CHR ''<'' then AfterLt else InText) s"
| "spec_scan BetweenAttrs (c # s) =
     spec_scan (if is_space c \<or> c = CHR ''/'' then BetweenAttrs
                else if c = CHR ''>'' then InText else InName [c]) s"
| "spec_scan (InName n) (c # s) =
     spec_scan (if is_space c then AfterName n
                else if c = CHR ''='' then AfterEq n
                else if c = CHR ''>'' then InText
                else if c = CHR ''/'' then BetweenAttrs
                else InName (n @ [c])) s"
| "spec_scan (AfterName n) (c # s) =
     spec_scan (if is_space c then AfterName n
                else if c = CHR ''='' then AfterEq n
                else if c = CHR ''>'' then InText
                else InName [c]) s"
| "spec_scan (AfterEq n) (c # s) =
     spec_scan (if is_space c then AfterEq n
                else if is_quote c then InQuoted n c []
                else if c = CHR ''>'' then InText
                else InUnquoted) s"
| "spec_scan (InQuoted n q v) (c # s) =
     (if c = q
      then (if map lower_char n = ''href'' then v # spec_scan BetweenAttrs s
            else spec_scan BetweenAttrs s)
      else spec_scan (InQuoted n q (v @ [c])) s)"
| "spec_scan InUnquoted (c # s) =
     spec_scan (if is_space c then BetweenAttrs
                else if c = CHR ''>'' then InText else InUnquoted) s"

definition spec_anchor_hrefs :: "string \<Rightarrow> string list" where
  "spec_anchor_hrefs html = spec_scan InText html"

definition spec_extractLinks_sound :: "'u url_api \<Rightarrow> string \<Rightarrow> string \<Rightarrow> bool" where
  "spec_extractLinks_sound api html baseUrl =
     list_all (\<lambda>n. Some n \<in> set (map (\<lambda>h. normalizeUrl api h baseUrl) (spec_anchor_hrefs html)))
       (extractLinks api html baseUrl)"

section \<open>Example sites\<close>

text \<open>
  The examples run the crawler on small sites: a table from URLs to what \<open>fetch\<close> gives
  back (a URL outside the table fails like a network error), and an extractor that takes
  the words with an \<open>@\<close> for email addresses.
\<close>

definition example_extractor :: "string \<Rightarrow> str_set" where
  "example_extractor html = remdups (filter (\<lambda>wd. CHR ''@'' \<in> set wd) (split_on CHR '' '' html))"

definition ok_page :: "string \<Rightarrow> thrown + response" where
  "ok_page html = Inr \<lparr> ok = True, status = 200, text_outcome = Inr html \<rparr>"

definition site :: "(string \<times> (thrown + response)) list \<Rightarrow> world" where
  "site pages =
     \<lparr> fetch = (\<lambda>u. case map_of pages u of Some r \<Rightarrow> r | None \<Rightarrow> Inl (ThrownError ''fetch failed'')),
       extractAndNormalizeEmails = example_extractor \<rparr>"

definition plain_options :: options where
  "plain_options =
     \<lparr> opt_maxDepth = None, opt_maxPages = None, opt_sameDomainOnly = None,
       opt_waitUntil = None, opt_timeout = None, opt_useBrowser = None, opt_browser = None,
       opt_onPageVisited = True, opt_onError = True \<rparr>"

definition five_links :: world where
  "five_links = site
     [(''https://a.example'',
         ok_page ''<a href=\"/p1\"> <a href=\"/p2\"> <a href=\"/p3\"> <a href=\"/p4\"> <a href=\"/p5\"> info@a.example''),
      (''https://a.example/p1'', ok_page ''p1@a.example''),
      (''https://a.example/p2'', ok_page ''p2@a.example''),
      (''https://a.example/p3'', ok_page ''p3@a.example''),
      (''https://a.example/p4'', ok_page ''p4@a.example''),
      (''https://a.example/p5'', ok_page ''p5@a.example'')]"

definition one_page_options :: options where
  "one_page_options = plain_options\<lparr>opt_maxPages := Some 1\<rparr>"

definition chain_site :: world where
  "chain_site = site
     [(''https://a.example'', ok_page ''<a href=\"/p1\"> info@a.example''),
      (''https://a.example/p1'', ok_page ''<a href=\"/p2\"> p1@a.example''),
      (''https://a.example/p2'', ok_page ''p2@a.example'')]"

definition depth_one_options :: options where
  "depth_one_options = plain_options\<lparr>opt_maxDepth := Some 1\<rparr>"

definition chain_after_start :: state where
  "chain_after_start =
     \<lparr> toVisit = [Entry ''https://a.example/p1'' 1],
       visited = [''https://a.example''],
       allEmails = [''info@a.example''],
       log = [HttpFetch ''https://a.example'' 0, OnPageVisited ''https://a.example'' 0 1] \<rparr>"

definition two_domains :: world where
  "two_domains = site
     [(''https://a.example'', ok_page ''<a href=\"https://b.example/page\"> <a href=\"/p1\"> info@a.example''),
      (''https://a.example/p1'', ok_page ''p1@a.example''),
      (''https://b.example/page'', ok_page ''page@b.example'')]"

definition lonely_site :: world where
  "lonely_site = site [(''https://a.example'', ok_page ''info@a.example'')]"

definition no_handle_options :: options where
  "no_handle_options = plain_options\<lparr>opt_useBrowser := Some True, opt_browser := None\<rparr>"

definition flaky_site :: world where
  "flaky_site = site
     [(''https://a.example'', ok_page ''<a href=\"/p1\"> <a href=\"/p2\"> info@a.example''),
      (''https://a.example/p1'', Inl (ThrownError ''network down'')),
      (''https://a.example/p2'', ok_page ''p2@a.example'')]"

definition flaky_after_start :: state where
  "flaky_after_start =
     \<lparr> toVisit = [Entry ''https://a.example/p1'' 1, Entry ''https://a.example/p2'' 1],
       visited = [''https://a.example''],
       allEmails = [''info@a.example''],
       log = [HttpFetch ''https://a.example'' 0, OnPageVisited ''https://a.example'' 0 1] \<rparr>"

definition flaky_after_failure :: state where
  "flaky_after_failure =
     \<lparr> toVisit = [Entry ''https://a.example/p2'' 1],
       visited = [''https://a.example'', ''https://a.example/p1''],
       allEmails = [''info@a.example''],
       log = [HttpFetch ''https://a.example'' 0, OnPageVisited ''https://a.example'' 0 1,
              HttpFetch ''https://a.example/p1'' 1,
              OnError ''https://a.example/p1'' (JsError ''network down'')] \<rparr>"

text \<open>
  A site where the second page is linked from the start page and from the first page: the
  start page links to \<open>/p1\<close> and \<open>/p2\<close>, and \<open>/p1\<close> links to \<open>/p3\<close> and \<open>/p2\<close>.
\<close>

definition tree_site :: world where
  "tree_site = site
     [(''https://a.example'', ok_page ''<a href=\"/p1\"> <a href=\"/p2\">''),
      (''https://a.example/p1'', ok_page ''<a href=\"/p3\"> <a href=\"/p2\">''),
      (''https://a.example/p2'', ok_page ''p2@a.example''),
      (''https://a.example/p3'', ok_page ''p3@a.example'')]"

definition tree_after_two :: state where
  "tree_after_two =
     \<lparr> toVisit = [Entry ''https://a.example/p2'' 1, Entry ''https://a.example/p3'' 2,
                  Entry ''https://a.example/p2'' 2],
       visited = [''https://a.example'', ''https://a.example/p1''],
       allEmails = [],
       log = [HttpFetch ''https://a.example'' 0, OnPageVisited ''https://a.example'' 0 0,
              HttpFetch ''https://a.example/p1'' 1, OnPageVisited ''https://a.example/p1'' 1 0] \<rparr>"

definition tree_after_four :: state where
  "tree_after_four =
     \<lparr> toVisit = [Entry ''https://a.example/p2'' 2],
       visited = [''https://a.example'', ''https://a.example/p1'', ''https://a.example/p2'',
                  ''https://a.example/p3''],
       allEmails = [''p2@a.example'', ''p3@a.example''],
       log = [HttpFetch ''https://a.example'' 0, OnPageVisited ''https://a.example'' 0 0,
              HttpFetch ''https://a.example/p1'' 1, OnPageVisited ''https://a.example/p1'' 1 0,
              HttpFetch ''https://a.example/p2'' 1, OnPageVisited ''https://a.example/p2'' 1 1,
              HttpFetch ''https://a.example/p3'' 2, OnPageVisited ''https://a.example/p3'' 2 1] \<rparr>"

definition good_page :: page where
  "good_page =
     \<lparr> page_goto = (\<lambda>u wu ms. None),
       page_content = Inr ''<a href=\"/p1\"> <a href=\"/p2\">'',
       page_emails = Inr [''info@a.example''],
       page_close = None \<rparr>"

definition slow_page :: page where
  "slow_page =
     \<lparr> page_goto = (\<lambda>u wu ms. Some (ThrownError ''Timeout exceeded'')),
       page_content = Inr [],
       page_emails = Inr [],
       page_close = None \<rparr>"

definition example_browser :: browser where
  "example_browser u =
     (if u = ''https://a.example'' then Inr good_page
      else if u = ''https://a.example/p1'' then Inr slow_page
      else Inl (ThrownError ''browser has been closed''))"

definition browser_options :: options where
  "browser_options = plain_options\<lparr>opt_useBrowser := Some True, opt_browser := Some example_browser\<rparr>"

text \<open>
  Two pieces of HTML on which the pattern and the anchors' \<open>href\<close> attributes part: a tag
  that is no anchor, with an attribute that is no \<open>href\<close>, and an anchor whose \<open>href\<close>
  value holds a quote of the other kind.
\<close>

definition abbr_html :: string where
  "abbr_html = ''<abbr title='t' data-href='/n'>''"

definition apostrophe_html :: string where
  "apostrophe_html = ''<A HREF=\"it's\">''"

definition blog_post_url :: url_record where
  "blog_post_url =
     \<lparr> u_scheme = ''https'', u_host = ''site.example'', u_port = None,
       u_path = [''blog'', ''post''], u_query = None, u_fragment = None \<rparr>"

definition blog_post_html :: string where
  "blog_post_html = ''<a href=\"../about#team\">team</a> <a href=\"http://\">bad</a> <A HREF='../about'>again</A>''"

definition other_port_url :: url_record where
  "other_port_url =
     \<lparr> u_scheme = ''http'', u_host = ''a.example'', u_port = Some 8080,
       u_path = [''x''], u_query = None, u_fragment = None \<rparr>"

definition start_url :: url_record where
  "start_url =
     \<lparr> u_scheme = ''https'', u_host = ''a.example'', u_port = None,
       u_path = [[]], u_query = None, u_fragment = None \<rparr>"

definition other_port_site :: world where
  "other_port_site = site
     [(''https://a.example'', ok_page ''<a href=\"http://a.example:8080/x\">''),
      (''http://a.example:8080/x'', ok_page ''x@a.example'')]"

definition other_port_after_start :: state where
  "other_port_after_start =
     \<lparr> toVisit = [Entry ''http://a.example:8080/x'' 1],
       visited = [''https://a.example''],
       allEmails = [],
       log = [HttpFetch ''https://a.example'' 0, OnPageVisited ''https://a.example'' 0 0] \<rparr>"

section \<open>Properties of the loop\<close>

subsection \<open>One iteration\<close>

lemma attempts_append [simp]: "attempts (xs @ ys) = attempts xs @ attempts ys"
  by (induction xs) (auto split: option.splits)

lemma attempts_page_steps [simp]: "attempts (fst (page_steps cfg pg u d)) = []"
  by (simp add: page_steps_def split: option.splits sum.splits)

lemma attempts_browser_fetch [simp]: "attempts (fst (browser_fetch cfg br u d)) = [Entry u d]"
proof (cases "br u")
  case (Inl t)
  then show ?thesis by (simp add: browser_fetch_def)
next
  case (Inr pg)
  obtain evs res where ps: "page_steps cfg pg u d = (evs, res)" by (cases "page_steps cfg pg u d")
  with attempts_page_steps [of cfg pg u d] have "attempts evs = []" by simp
  with Inr ps show ?thesis
    by (simp add: browser_fetch_def split: option.splits)
qed

lemma attempts_http_fetch [simp]: "attempts (fst (http_fetch w u d)) = [Entry u d]"
  by (simp add: http_fetch_def split: sum.splits)

lemma attempts_fetch_page [simp]: "attempts (fst (fetch_page w cfg u d)) = [Entry u d]"
  by (simp add: fetch_page_def split: option.splits)

lemma attempt_report_error [simp]: "fetch_attempt (report_error cfg u t) = None"
  by (simp add: report_error_def)

lemma attempts_notify_visit [simp]: "attempts (notify_visit cfg u d emails) = []"
  by (simp add: notify_visit_def)

lemma attempts_process_page [simp]:
  "attempts (log (process_page api w cfg sd u d st)) = attempts (log st) @ [Entry u d]"
proof -
  obtain evs res where f: "fetch_page w cfg u d = (evs, res)" by (cases "fetch_page w cfg u d")
  with attempts_fetch_page [of w cfg u d] have a: "attempts evs = [Entry u d]" by simp
  show ?thesis
    by (cases res) (simp_all add: process_page_def f a Let_def split: prod.splits)
qed

lemma toVisit_process_page:
  "toVisit (process_page api w cfg sd u d st) = toVisit st \<or>
   (int d < maxDepth cfg \<and>
    (\<exists>links. toVisit (process_page api w cfg sd u d st) =
       toVisit st @ new_entries api cfg sd (visited st) d links))"
  by (auto simp: process_page_def Let_def split: prod.splits sum.splits)

lemma loop_body_skip:
  "toVisit st = e # rest \<Longrightarrow> \<not> passes api cfg sd (visited st) e \<Longrightarrow>
   loop_body api w cfg sd st = st\<lparr>toVisit := rest\<rparr>"
  by (auto simp: loop_body_def passes_def Let_def)

lemma loop_body_process:
  "toVisit st = e # rest \<Longrightarrow> passes api cfg sd (visited st) e \<Longrightarrow>
   loop_body api w cfg sd st =
     process_page api w cfg sd (url e) (depth e) (st\<lparr>toVisit := rest, visited := visited st @ [url e]\<rparr>)"
  by (auto simp: loop_body_def passes_def Let_def set_add_def set_has_def)

lemma steps_invariant:
  assumes "P st" and "\<And>s. P s \<Longrightarrow> loop_cond cfg s \<Longrightarrow> P (loop_body api w cfg sd s)"
  shows "P (steps api w cfg sd n st)"
  using assms(1)
proof (induction n arbitrary: st)
  case 0
  then show ?case by simp
next
  case (Suc n)
  then show ?case by (simp add: assms(2))
qed

lemma run_is_steps: "\<exists>n. run api w cfg sd st = steps api w cfg sd n st"
proof (induction api w cfg sd st rule: run.induct)
  case (1 api w cfg sd st)
  show ?case
  proof (cases "loop_cond cfg st")
    case True
    from 1 [OF True] obtain n where
      "run api w cfg sd (loop_body api w cfg sd st) = steps api w cfg sd n (loop_body api w cfg sd st)" ..
    with True have "run api w cfg sd st = steps api w cfg sd (Suc n) st"
      by (simp add: run.simps [of api w cfg sd st])
    then show ?thesis ..
  next
    case False
    then have "run api w cfg sd st = steps api w cfg sd 0 st"
      by (simp add: run.simps [of api w cfg sd st])
    then show ?thesis ..
  qed
qed

lemma run_invariant:
  assumes "P st" and "\<And>s. P s \<Longrightarrow> loop_cond cfg s \<Longrightarrow> P (loop_body api w cfg sd s)"
  shows "P (run api w cfg sd st)"
proof -
  obtain n where "run api w cfg sd st = steps api w cfg sd n st"
    using run_is_steps by blast
  with steps_invariant [of P st cfg api w sd n, OF assms] show ?thesis by simp
qed

lemma run_stops: "\<not> loop_cond cfg (run api w cfg sd st)"
  by (induction api w cfg sd st rule: run.induct) (simp add: run.simps)

subsection \<open>The page budget\<close>

lemma budget_step:
  assumes "int (set_size (visited s)) \<le> maxPages cfg" and "loop_cond cfg s"
  shows "int (set_size (visited (loop_body api w cfg sd s))) \<le> maxPages cfg"
  using loop_body_progress [OF assms(2), of api w sd] assms
  by (auto simp: loop_cond_def)

lemma initial_passes:
  "0 \<le> maxDepth cfg \<Longrightarrow> passes api cfg (getDomain api startUrl) [] (Entry startUrl 0)"
  by (simp add: passes_def set_has_def)

lemma first_iteration:
  assumes "0 \<le> maxDepth cfg"
  shows "loop_body api w cfg (getDomain api startUrl) (initial_state startUrl) =
         process_page api w cfg (getDomain api startUrl) startUrl 0
           \<lparr>toVisit = [], visited = [startUrl], allEmails = [], log = []\<rparr>"
  using loop_body_process [of "initial_state startUrl" "Entry startUrl 0" "[]" api cfg "getDomain api startUrl" w]
    initial_passes [OF assms, of api startUrl]
  by (simp add: initial_state_def)

lemma single_page_run:
  assumes "maxPages cfg = 1" and "0 \<le> maxDepth cfg"
  shows "run api w cfg (getDomain api startUrl) (initial_state startUrl) =
         loop_body api w cfg (getDomain api startUrl) (initial_state startUrl)"
proof -
  let ?sd = "getDomain api startUrl"
  let ?s1 = "loop_body api w cfg ?sd (initial_state startUrl)"
  have c0: "loop_cond cfg (initial_state startUrl)"
    using assms(1) by (simp add: loop_cond_def initial_state_def set_size_def)
  have "visited ?s1 = [startUrl]"
    by (simp add: first_iteration [OF assms(2)])
  then have c1: "\<not> loop_cond cfg ?s1"
    using assms(1) by (simp add: loop_cond_def set_size_def)
  have "run api w cfg ?sd (initial_state startUrl) = run api w cfg ?sd ?s1"
    using c0 by (simp add: run.simps [of api w cfg ?sd "initial_state startUrl"])
  also have "\<dots> = ?s1"
    using c1 by (simp add: run.simps [of api w cfg ?sd ?s1])
  finally show ?thesis .
qed

text \<open>
  Claim C1. In a run of \<open>scrapeEmailsFromWebsite\<close> with \<open>maxPages \<ge> 0\<close> the visited set
  never holds more than \<open>maxPages\<close> URLs: not after any number of iterations, not at the
  end, however many links the pages hold. With \<open>maxPages = 1\<close> (and a depth limit that
  admits the start page) the run marks and fetches the start URL and nothing else.
\<close>

theorem visited_never_exceeds_maxPages:
  assumes "0 \<le> maxPages (destructure opts)"
  shows "int (set_size (visited (crawl_steps api w startUrl opts n))) \<le> maxPages (destructure opts) \<and>
         int (set_size (visited (crawl api w startUrl opts))) \<le> maxPages (destructure opts) \<and>
         (maxPages (destructure opts) = 1 \<longrightarrow> 0 \<le> maxDepth (destructure opts) \<longrightarrow>
            visited (crawl api w startUrl opts) = [startUrl] \<and>
            attempts (log (crawl api w startUrl opts)) = [Entry startUrl 0])"
proof (intro conjI impI)
  let ?cfg = "destructure opts"
  let ?P = "\<lambda>s. int (set_size (visited s)) \<le> maxPages ?cfg"
  have init: "?P (initial_state startUrl)"
    using assms by (simp add: initial_state_def set_size_def)
  show "?P (crawl_steps api w startUrl opts n)"
    unfolding crawl_steps_def
    by (rule steps_invariant [where P = ?P, OF init]) (rule budget_step)
  show "?P (crawl api w startUrl opts)"
    unfolding crawl_def
    by (rule run_invariant [where P = ?P, OF init]) (rule budget_step)
next
  assume one: "maxPages (destructure opts) = 1" and d: "0 \<le> maxDepth (destructure opts)"
  show "visited (crawl api w startUrl opts) = [startUrl]"
    by (simp add: crawl_def single_page_run [OF one d] first_iteration [OF d])
  show "attempts (log (crawl api w startUrl opts)) = [Entry startUrl 0]"
    by (simp add: crawl_def single_page_run [OF one d] first_iteration [OF d])
qed

text \<open>
  Scenario B: the start page links to five pages and \<open>maxPages\<close> is 1. The run fetches
  the start page only; the five links stay in the frontier.
\<close>

theorem visited_never_exceeds_maxPages_witness:
  "0 \<le> maxPages (destructure one_page_options) \<and>
   int (set_size (visited (crawl_steps basic_url_api five_links ''https://a.example'' one_page_options 4))) \<le> 1 \<and>
   visited (crawl basic_url_api five_links ''https://a.example'' one_page_options) = [''https://a.example''] \<and>
   attempts (log (crawl basic_url_api five_links ''https://a.example'' one_page_options)) =
     [Entry ''https://a.example'' 0] \<and>
   toVisit (crawl basic_url_api five_links ''https://a.example'' one_page_options) =
     [Entry ''https://a.example/p1'' 1, Entry ''https://a.example/p2'' 1, Entry ''https://a.example/p3'' 1,
      Entry ''https://a.example/p4'' 1, Entry ''https://a.example/p5'' 1] \<and>
   allEmails (crawl basic_url_api five_links ''https://a.example'' one_page_options) = [''info@a.example'']"
proof -
  have m: "maxPages (destructure one_page_options) = 1"
    by (simp add: one_page_options_def plain_options_def destructure_def or_default_def)
  have d: "0 \<le> maxDepth (destructure one_page_options)"
    by (simp add: one_page_options_def plain_options_def destructure_def or_default_def)
  have h: "0 \<le> maxPages (destructure one_page_options)"
    using m by simp
  have rest: "toVisit (crawl basic_url_api five_links ''https://a.example'' one_page_options) =
     [Entry ''https://a.example/p1'' 1, Entry ''https://a.example/p2'' 1, Entry ''https://a.example/p3'' 1,
      Entry ''https://a.example/p4'' 1, Entry ''https://a.example/p5'' 1] \<and>
   allEmails (crawl basic_url_api five_links ''https://a.example'' one_page_options) = [''info@a.example'']"
    by code_simp
  from visited_never_exceeds_maxPages [OF h, of basic_url_api five_links "''https://a.example''" 4] m d h rest
  show ?thesis by simp
qed

subsection \<open>The depth limit\<close>

lemma log_loop_body_skip:
  "toVisit st = e # rest \<Longrightarrow> \<not> passes api cfg sd (visited st) e \<Longrightarrow>
   log (loop_body api w cfg sd st) = log st"
  by (simp add: loop_body_skip)

lemma attempts_loop_body:
  assumes "toVisit st = e # rest"
  shows "attempts (log (loop_body api w cfg sd st)) =
         attempts (log st) @ (if passes api cfg sd (visited st) e then [e] else [])"
proof (cases "passes api cfg sd (visited st) e")
  case True
  then show ?thesis by (simp add: loop_body_process [OF assms])
next
  case False
  then show ?thesis by (simp add: loop_body_skip [OF assms])
qed

lemma toVisit_process_page_deep:
  "\<not> int d < maxDepth cfg \<Longrightarrow> toVisit (process_page api w cfg sd u d st) = toVisit st"
  by (simp add: process_page_def Let_def split: prod.splits sum.splits)

lemma depth_new_entries:
  "list_all (\<lambda>x. depth x = d + 1) (new_entries api cfg sd vis d links)"
  by (simp add: new_entries_def list_all_iff)

lemma toVisit_loop_body:
  assumes "toVisit st = e # rest"
  shows "\<exists>new. toVisit (loop_body api w cfg sd st) = rest @ new \<and>
           list_all (\<lambda>x. depth x = depth e + 1 \<and> int (depth e) < maxDepth cfg) new"
proof (cases "passes api cfg sd (visited st) e")
  case False
  then have "toVisit (loop_body api w cfg sd st) = rest @ []"
    by (simp add: loop_body_skip [OF assms])
  then show ?thesis by (intro exI [of _ "[]"]) simp
next
  case True
  let ?st = "st\<lparr>toVisit := rest, visited := visited st @ [url e]\<rparr>"
  have lb: "loop_body api w cfg sd st = process_page api w cfg sd (url e) (depth e) ?st"
    by (rule loop_body_process [OF assms True])
  from toVisit_process_page [of api w cfg sd "url e" "depth e" ?st]
  show ?thesis
  proof
    assume "toVisit (process_page api w cfg sd (url e) (depth e) ?st) = toVisit ?st"
    then have "toVisit (loop_body api w cfg sd st) = rest @ []" by (simp add: lb)
    then show ?thesis by (intro exI [of _ "[]"]) simp
  next
    assume "int (depth e) < maxDepth cfg \<and>
      (\<exists>links. toVisit (process_page api w cfg sd (url e) (depth e) ?st) =
         toVisit ?st @ new_entries api cfg sd (visited ?st) (depth e) links)"
    then obtain links where d: "int (depth e) < maxDepth cfg"
      and t: "toVisit (loop_body api w cfg sd st) =
                rest @ new_entries api cfg sd (visited ?st) (depth e) links"
      by (auto simp: lb)
    from depth_new_entries [of "depth e" api cfg sd "visited ?st" links] d
    have "list_all (\<lambda>x. depth x = depth e + 1 \<and> int (depth e) < maxDepth cfg)
            (new_entries api cfg sd (visited ?st) (depth e) links)"
      by (simp add: list_all_iff)
    with t show ?thesis by blast
  qed
qed

lemma depth_step:
  assumes "list_all (\<lambda>e. int (depth e) \<le> maxDepth cfg) (attempts (log s))" and "loop_cond cfg s"
  shows "list_all (\<lambda>e. int (depth e) \<le> maxDepth cfg) (attempts (log (loop_body api w cfg sd s)))"
proof -
  from assms(2) obtain e rest where tv: "toVisit s = e # rest"
    by (cases "toVisit s") (auto simp: loop_cond_def)
  show ?thesis
    using assms(1) by (auto simp: attempts_loop_body [OF tv] passes_def)
qed

text \<open>
  Claim C2. No entry deeper than \<open>maxDepth\<close> is ever handed to the fetch strategy. An
  entry at depth \<open>maxDepth\<close> that is unvisited and in scope is fetched. An iteration on an
  entry at depth \<open>maxDepth\<close> or deeper adds nothing to the frontier: whatever an iteration
  adds comes after the entries already waiting, one level below an entry whose depth is
  less than \<open>maxDepth\<close>.
\<close>

theorem depth_ceiling:
  "list_all (\<lambda>e. int (depth e) \<le> maxDepth (destructure opts))
     (attempts (log (crawl_steps api w startUrl opts n))) \<and>
   list_all (\<lambda>e. int (depth e) \<le> maxDepth (destructure opts))
     (attempts (log (crawl api w startUrl opts))) \<and>
   (toVisit st = e # rest \<longrightarrow> int (depth e) = maxDepth cfg \<longrightarrow>
      \<not> set_has (visited st) (url e) \<longrightarrow> in_scope api cfg sd (url e) \<longrightarrow>
        attempts (log (loop_body api w cfg sd st)) = attempts (log st) @ [e]) \<and>
   (toVisit st = e # rest \<longrightarrow> maxDepth cfg \<le> int (depth e) \<longrightarrow>
        toVisit (loop_body api w cfg sd st) = rest) \<and>
   (toVisit st = e # rest \<longrightarrow>
      (\<exists>new. toVisit (loop_body api w cfg sd st) = rest @ new \<and>
         list_all (\<lambda>x. depth x = depth e + 1 \<and> int (depth e) < maxDepth cfg) new))"
proof (intro conjI impI)
  let ?P = "\<lambda>s. list_all (\<lambda>e. int (depth e) \<le> maxDepth (destructure opts)) (attempts (log s))"
  have init: "?P (initial_state startUrl)"
    by (simp add: initial_state_def)
  show "?P (crawl_steps api w startUrl opts n)"
    unfolding crawl_steps_def
    by (rule steps_invariant [where P = ?P, OF init]) (rule depth_step)
  show "?P (crawl api w startUrl opts)"
    unfolding crawl_def
    by (rule run_invariant [where P = ?P, OF init]) (rule depth_step)
next
  assume tv: "toVisit st = e # rest" and "int (depth e) = maxDepth cfg"
    and "\<not> set_has (visited st) (url e)" and "in_scope api cfg sd (url e)"
  then have "passes api cfg sd (visited st) e"
    by (auto simp: passes_def in_scope_def)
  then show "attempts (log (loop_body api w cfg sd st)) = attempts (log st) @ [e]"
    by (simp add: attempts_loop_body [OF tv])
next
  assume tv: "toVisit st = e # rest" and deep: "maxDepth cfg \<le> int (depth e)"
  from toVisit_loop_body [OF tv, of api w cfg sd] deep
  show "toVisit (loop_body api w cfg sd st) = rest"
    by (auto simp: list_all_iff neq_Nil_conv)
next
  assume tv: "toVisit st = e # rest"
  then show "\<exists>new. toVisit (loop_body api w cfg sd st) = rest @ new \<and>
         list_all (\<lambda>x. depth x = depth e + 1 \<and> int (depth e) < maxDepth cfg) new"
    by (rule toVisit_loop_body)
qed

lemma chain_first_step:
  "crawl_steps basic_url_api chain_site ''https://a.example'' depth_one_options 1 = chain_after_start"
  by code_simp

text \<open>
  With \<open>maxDepth = 1\<close> on a chain of three pages, the page at depth 1 is fetched and its
  link to the third page is not enqueued.
\<close>

theorem depth_ceiling_witness:
  "crawl_steps basic_url_api chain_site ''https://a.example'' depth_one_options 1 = chain_after_start \<and>
   toVisit chain_after_start = [Entry ''https://a.example/p1'' 1] \<and>
   int (depth (Entry ''https://a.example/p1'' 1)) = maxDepth (destructure depth_one_options) \<and>
   \<not> set_has (visited chain_after_start) ''https://a.example/p1'' \<and>
   in_scope basic_url_api (destructure depth_one_options) ''a.example'' ''https://a.example/p1'' \<and>
   attempts (log (loop_body basic_url_api chain_site (destructure depth_one_options) ''a.example'' chain_after_start)) =
     [Entry ''https://a.example'' 0, Entry ''https://a.example/p1'' 1] \<and>
   toVisit (loop_body basic_url_api chain_site (destructure depth_one_options) ''a.example'' chain_after_start) = [] \<and>
   list_all (\<lambda>e. int (depth e) \<le> 1)
     (attempts (log (crawl basic_url_api chain_site ''https://a.example'' depth_one_options)))"
proof -
  let ?cfg = "destructure depth_one_options"
  let ?e = "Entry ''https://a.example/p1'' 1"
  have md: "maxDepth ?cfg = 1"
    by (simp add: depth_one_options_def plain_options_def destructure_def or_default_def)
  have tv: "toVisit chain_after_start = ?e # []"
    by (simp add: chain_after_start_def)
  have d: "int (depth ?e) = maxDepth ?cfg"
    by (simp add: md)
  have nv: "\<not> set_has (visited chain_after_start) (url ?e)"
    by (simp add: chain_after_start_def set_has_def)
  have sc: "in_scope basic_url_api ?cfg ''a.example'' (url ?e)"
    by code_simp
  have at: "attempts (log chain_after_start) = [Entry ''https://a.example'' 0]"
    by (simp add: chain_after_start_def)
  note t = depth_ceiling [where opts = depth_one_options and api = basic_url_api and w = chain_site
      and startUrl = "''https://a.example''" and n = 1 and st = chain_after_start and e = ?e
      and rest = "[]" and cfg = ?cfg and sd = "''a.example''"]
  from t tv d nv sc at md chain_first_step show ?thesis
    by simp
qed

subsection \<open>The domain restriction\<close>

lemma new_entries_filtered:
  "list_all (\<lambda>x. depth x = d + 1 \<and> \<not> set_has vis (url x) \<and> in_scope api cfg sd (url x))
     (new_entries api cfg sd vis d links)"
  by (simp add: new_entries_def list_all_iff)

text \<open>
  What an iteration leaves in the frontier: the entries behind the head, then entries for
  links that are unvisited and in scope, one level deeper than the head.
\<close>

lemma frontier_after_iteration:
  assumes "toVisit st = e # rest"
  shows "\<exists>new. toVisit (loop_body api w cfg sd st) = rest @ new \<and>
           list_all (\<lambda>x. depth x = depth e + 1 \<and> int (depth e) < maxDepth cfg \<and>
                         \<not> set_has (visited st) (url x) \<and> url x \<noteq> url e \<and>
                         in_scope api cfg sd (url x)) new"
proof (cases "passes api cfg sd (visited st) e")
  case False
  then have "toVisit (loop_body api w cfg sd st) = rest @ []"
    by (simp add: loop_body_skip [OF assms])
  then show ?thesis by (intro exI [of _ "[]"]) simp
next
  case True
  let ?st = "st\<lparr>toVisit := rest, visited := visited st @ [url e]\<rparr>"
  have lb: "loop_body api w cfg sd st = process_page api w cfg sd (url e) (depth e) ?st"
    by (rule loop_body_process [OF assms True])
  from toVisit_process_page [of api w cfg sd "url e" "depth e" ?st]
  show ?thesis
  proof
    assume "toVisit (process_page api w cfg sd (url e) (depth e) ?st) = toVisit ?st"
    then have "toVisit (loop_body api w cfg sd st) = rest @ []" by (simp add: lb)
    then show ?thesis by (intro exI [of _ "[]"]) simp
  next
    assume "int (depth e) < maxDepth cfg \<and>
      (\<exists>links. toVisit (process_page api w cfg sd (url e) (depth e) ?st) =
         toVisit ?st @ new_entries api cfg sd (visited ?st) (depth e) links)"
    then obtain links where d: "int (depth e) < maxDepth cfg"
      and t: "toVisit (loop_body api w cfg sd st) =
                rest @ new_entries api cfg sd (visited ?st) (depth e) links"
      by (auto simp: lb)
    from new_entries_filtered [of "depth e" "visited ?st" api cfg sd links] d
    have "list_all (\<lambda>x. depth x = depth e + 1 \<and> int (depth e) < maxDepth cfg \<and>
                         \<not> set_has (visited st) (url x) \<and> url x \<noteq> url e \<and>
                         in_scope api cfg sd (url x))
            (new_entries api cfg sd (visited ?st) (depth e) links)"
      by (auto simp: list_all_iff set_has_def)
    with t show ?thesis by blast
  qed
qed

lemma domain_step:
  assumes sdo: "sameDomainOnly cfg"
    and inv: "list_all (in_domain api sd) (attempts (log s)) \<and> list_all (in_domain api sd) (toVisit s)"
    and c: "loop_cond cfg s"
  shows "list_all (in_domain api sd) (attempts (log (loop_body api w cfg sd s))) \<and>
         list_all (in_domain api sd) (toVisit (loop_body api w cfg sd s))"
proof -
  from c obtain e rest where tv: "toVisit s = e # rest"
    by (cases "toVisit s") (auto simp: loop_cond_def)
  from frontier_after_iteration [OF tv, of api w cfg sd] obtain new where
    n: "toVisit (loop_body api w cfg sd s) = rest @ new"
    and a: "list_all (\<lambda>x. in_scope api cfg sd (url x)) new"
    by (auto simp: list_all_iff)
  from a sdo have "list_all (in_domain api sd) new"
    by (simp add: list_all_iff in_scope_def in_domain_def)
  with inv tv n have 1: "list_all (in_domain api sd) (toVisit (loop_body api w cfg sd s))"
    by simp
  from inv tv have 2: "list_all (in_domain api sd) (attempts (log (loop_body api w cfg sd s)))"
    by (simp add: attempts_loop_body [OF tv])
  from 1 2 show ?thesis by simp
qed

text \<open>
  Claim C3. With \<open>sameDomainOnly\<close> set, every URL handed to the fetch strategy has the
  domain of the start URL, which is computed once and passed to every iteration; so has
  every entry of the frontier at any point of the run, and a link with another domain is
  not among the entries an iteration adds.
\<close>

theorem same_domain_only:
  assumes "sameDomainOnly (destructure opts)"
  shows "list_all (in_domain api (getDomain api startUrl)) (attempts (log (crawl_steps api w startUrl opts n))) \<and>
         list_all (in_domain api (getDomain api startUrl)) (toVisit (crawl_steps api w startUrl opts n)) \<and>
         list_all (in_domain api (getDomain api startUrl)) (attempts (log (crawl api w startUrl opts))) \<and>
         (getDomain api link \<noteq> getDomain api startUrl \<longrightarrow>
            Entry link k \<notin> set (new_entries api (destructure opts) (getDomain api startUrl) vis d links))"
proof (intro conjI impI)
  let ?sd = "getDomain api startUrl"
  let ?P = "\<lambda>s. list_all (in_domain api ?sd) (attempts (log s)) \<and> list_all (in_domain api ?sd) (toVisit s)"
  have init: "?P (initial_state startUrl)"
    by (simp add: initial_state_def in_domain_def)
  have "?P (crawl_steps api w startUrl opts n)"
    unfolding crawl_steps_def
    by (rule steps_invariant [where P = ?P, OF init]) (rule domain_step [OF assms])
  then show "list_all (in_domain api ?sd) (attempts (log (crawl_steps api w startUrl opts n)))"
    and "list_all (in_domain api ?sd) (toVisit (crawl_steps api w startUrl opts n))"
    by simp_all
  have "?P (crawl api w startUrl opts)"
    unfolding crawl_def
    by (rule run_invariant [where P = ?P, OF init]) (rule domain_step [OF assms])
  then show "list_all (in_domain api ?sd) (attempts (log (crawl api w startUrl opts)))"
    by simp
next
  assume "getDomain api link \<noteq> getDomain api startUrl"
  with assms show "Entry link k \<notin> set (new_entries api (destructure opts) (getDomain api startUrl) vis d links)"
    by (auto simp: new_entries_def in_scope_def)
qed

text \<open>
  Scenario D: the start page \<open>https://a.example\<close> links to \<open>https://b.example/page\<close>;
  the link is extracted and not enqueued.
\<close>

theorem same_domain_only_witness:
  "sameDomainOnly (destructure plain_options) \<and>
   extractLinks basic_url_api ''<a href=\"https://b.example/page\"> <a href=\"/p1\"> info@a.example'' ''https://a.example'' =
     [''https://b.example/page'', ''https://a.example/p1''] \<and>
   toVisit (crawl_steps basic_url_api two_domains ''https://a.example'' plain_options 1) =
     [Entry ''https://a.example/p1'' 1] \<and>
   list_all (in_domain basic_url_api ''a.example'')
     (attempts (log (crawl basic_url_api two_domains ''https://a.example'' plain_options))) \<and>
   Entry ''https://b.example/page'' 1 \<notin>
     set (new_entries basic_url_api (destructure plain_options) ''a.example'' [''https://a.example''] 0
            [''https://b.example/page'', ''https://a.example/p1''])"
proof -
  have s: "sameDomainOnly (destructure plain_options)"
    by (simp add: plain_options_def destructure_def or_default_def)
  have sd: "getDomain basic_url_api ''https://a.example'' = ''a.example''"
    by code_simp
  have b: "getDomain basic_url_api ''https://b.example/page'' \<noteq> getDomain basic_url_api ''https://a.example''"
    by code_simp
  have x: "extractLinks basic_url_api ''<a href=\"https://b.example/page\"> <a href=\"/p1\"> info@a.example'' ''https://a.example'' =
     [''https://b.example/page'', ''https://a.example/p1'']"
    by code_simp
  have f: "toVisit (crawl_steps basic_url_api two_domains ''https://a.example'' plain_options 1) =
     [Entry ''https://a.example/p1'' 1]"
    by code_simp
  note t = same_domain_only [OF s, where api = basic_url_api and w = two_domains
      and startUrl = "''https://a.example''" and n = 1 and link = "''https://b.example/page''" and k = 1
      and vis = "[''https://a.example'']" and d = 0
      and links = "[''https://b.example/page'', ''https://a.example/p1'']"]
  from t s b x f show ?thesis
    by (simp add: sd)
qed

subsection \<open>A browser run without a browser handle\<close>

lemma events_http_fetch [simp]: "fst (http_fetch w u d) = [HttpFetch u d]"
  by (simp add: http_fetch_def split: sum.splits)

lemma log_process_page_failure:
  assumes "fetch_page w cfg u d = (evs, Inl t)"
  shows "process_page api w cfg sd u d st = st\<lparr>log := log st @ evs @ [report_error cfg u t]\<rparr>"
  by (simp add: process_page_def assms)

lemma log_process_page_success:
  assumes "fetch_page w cfg u d = (evs, Inr (emails, html))"
  shows "log (process_page api w cfg sd u d st) = log st @ evs @ notify_visit cfg u d emails"
    and "allEmails (process_page api w cfg sd u d st) = foldl set_add (allEmails st) emails"
  by (simp_all add: process_page_def assms Let_def)

text \<open>
  Claim C4 says that with \<open>useBrowser\<close> set and no browser handle every fetch fails. It
  does not: on a site with one page, such a run fetches the page over HTTP, reports no
  error and returns the address found there.
\<close>

theorem missing_browser_handle_counterexample:
  "useBrowser (destructure no_handle_options) \<and> browser (destructure no_handle_options) = None \<and>
   fetch_page lonely_site (destructure no_handle_options) ''https://a.example'' 0 =
     ([HttpFetch ''https://a.example'' 0], Inr ([''info@a.example''], ''info@a.example'')) \<and>
   log (crawl basic_url_api lonely_site ''https://a.example'' no_handle_options) =
     [HttpFetch ''https://a.example'' 0, OnPageVisited ''https://a.example'' 0 1] \<and>
   allEmails (crawl basic_url_api lonely_site ''https://a.example'' no_handle_options) = [''info@a.example'']"
  by code_simp

text \<open>
  Claim C4, amended. With \<open>useBrowser\<close> set and no browser handle, the test
  \<open>useBrowser && browser\<close> fails and every URL is fetched with the HTTP strategy. The page
  fails, and the failure is reported, only when the HTTP fetch fails; when it succeeds the
  page's emails are merged and the visit is notified.
\<close>

theorem missing_browser_handle_uses_http:
  assumes "useBrowser (destructure opts)" and "opt_browser opts = None"
  shows "fetch_page w (destructure opts) u d = http_fetch w u d \<and>
         (snd (http_fetch w u d) = Inl t \<longrightarrow>
            process_page api w (destructure opts) sd u d st =
              st\<lparr>log := log st @ [HttpFetch u d, report_error (destructure opts) u t]\<rparr>) \<and>
         (snd (http_fetch w u d) = Inr (emails, html) \<longrightarrow>
            log (process_page api w (destructure opts) sd u d st) =
              log st @ [HttpFetch u d] @ notify_visit (destructure opts) u d emails \<and>
            allEmails (process_page api w (destructure opts) sd u d st) =
              foldl set_add (allEmails st) emails)"
proof -
  from assms(2) have nb: "browser (destructure opts) = None"
    by (simp add: destructure_def)
  then have fp: "fetch_page w (destructure opts) u d = http_fetch w u d"
    by (simp add: fetch_page_def)
  have ev: "http_fetch w u d = ([HttpFetch u d], snd (http_fetch w u d))"
    using events_http_fetch [of w u d] by (cases "http_fetch w u d") simp
  show ?thesis
  proof (intro conjI impI)
    show "fetch_page w (destructure opts) u d = http_fetch w u d" by (rule fp)
  next
    assume "snd (http_fetch w u d) = Inl t"
    with ev fp have "fetch_page w (destructure opts) u d = ([HttpFetch u d], Inl t)" by simp
    from log_process_page_failure [OF this, of api sd st]
    show "process_page api w (destructure opts) sd u d st =
              st\<lparr>log := log st @ [HttpFetch u d, report_error (destructure opts) u t]\<rparr>"
      by simp
  next
    assume "snd (http_fetch w u d) = Inr (emails, html)"
    with ev fp have f: "fetch_page w (destructure opts) u d = ([HttpFetch u d], Inr (emails, html))" by simp
    from log_process_page_success [OF f, of api sd st]
    show "log (process_page api w (destructure opts) sd u d st) =
              log st @ [HttpFetch u d] @ notify_visit (destructure opts) u d emails"
      and "allEmails (process_page api w (destructure opts) sd u d st) =
              foldl set_add (allEmails st) emails"
      by simp_all
  qed
qed

text \<open>
  On the site with one page: the start page is fetched over HTTP, and a URL outside the
  site fails like any HTTP fetch.
\<close>

theorem missing_browser_handle_uses_http_witness:
  "useBrowser (destructure no_handle_options) \<and> opt_browser no_handle_options = None \<and>
   fetch_page lonely_site (destructure no_handle_options) ''https://a.example'' 0 =
     http_fetch lonely_site ''https://a.example'' 0 \<and>
   snd (http_fetch lonely_site ''https://a.example/gone'' 1) = Inl (ThrownError ''fetch failed'') \<and>
   process_page basic_url_api lonely_site (destructure no_handle_options) ''a.example''
       ''https://a.example/gone'' 1 (initial_state ''https://a.example'') =
     (initial_state ''https://a.example'')
       \<lparr>log := [HttpFetch ''https://a.example/gone'' 1,
                OnError ''https://a.example/gone'' (JsError ''fetch failed'')]\<rparr>"
proof -
  have u: "useBrowser (destructure no_handle_options)"
    by (simp add: no_handle_options_def plain_options_def destructure_def or_default_def)
  have b: "opt_browser no_handle_options = None"
    by (simp add: no_handle_options_def)
  have f: "snd (http_fetch lonely_site ''https://a.example/gone'' 1) = Inl (ThrownError ''fetch failed'')"
    by code_simp
  have r: "report_error (destructure no_handle_options) ''https://a.example/gone'' (ThrownError ''fetch failed'') =
           OnError ''https://a.example/gone'' (JsError ''fetch failed'')"
    by (simp add: report_error_def no_handle_options_def plain_options_def destructure_def)
  have l: "log (initial_state ''https://a.example'') = []"
    by (simp add: initial_state_def)
  note t1 = missing_browser_handle_uses_http [OF u b, where w = lonely_site and u = "''https://a.example''" and d = 0,
      THEN conjunct1]
  note t2 = missing_browser_handle_uses_http [OF u b, where w = lonely_site and u = "''https://a.example/gone''"
      and d = 1 and t = "ThrownError ''fetch failed''" and api = basic_url_api and sd = "''a.example''"
      and st = "initial_state ''https://a.example''"]
  from t1 t2 u b f r l show ?thesis by simp
qed

subsection \<open>Failing pages\<close>

lemma set_foldl_set_add: "set (foldl set_add acc xs) = set acc \<union> set xs"
  by (induction xs arbitrary: acc) (auto simp: set_add_def)

lemma allEmails_process_page_mono:
  "set (allEmails st) \<subseteq> set (allEmails (process_page api w cfg sd u d st))"
  by (auto simp: process_page_def Let_def set_foldl_set_add split: prod.splits sum.splits)

lemma allEmails_loop_body_mono:
  "set (allEmails s) \<subseteq> set (allEmails (loop_body api w cfg sd s))"
proof (cases "toVisit s")
  case Nil
  then show ?thesis by (simp add: loop_body_def)
next
  case (Cons e rest)
  show ?thesis
  proof (cases "passes api cfg sd (visited s) e")
    case True
    from allEmails_process_page_mono
      [of "s\<lparr>toVisit := rest, visited := visited s @ [url e]\<rparr>" api w cfg sd "url e" "depth e"]
    show ?thesis by (simp add: loop_body_process [OF Cons True])
  next
    case False
    then show ?thesis by (simp add: loop_body_skip [OF Cons])
  qed
qed

lemma allEmails_run_mono:
  assumes "X \<subseteq> set (allEmails st)"
  shows "X \<subseteq> set (allEmails (run api w cfg sd st))"
proof (rule run_invariant [where P = "\<lambda>s. X \<subseteq> set (allEmails s)", OF assms])
  fix s :: state
  assume "X \<subseteq> set (allEmails s)"
  with allEmails_loop_body_mono [of s api w cfg sd]
  show "X \<subseteq> set (allEmails (loop_body api w cfg sd s))" by blast
qed

lemma passes_iff:
  "passes api cfg sd vis e \<longleftrightarrow>
     \<not> set_has vis (url e) \<and> int (depth e) \<le> maxDepth cfg \<and> in_scope api cfg sd (url e)"
  by (auto simp: passes_def in_scope_def)

text \<open>
  Claim C5. When the fetch of an entry that passed the filters fails, the iteration only
  removes the entry, marks its URL and reports the error (to \<open>onError\<close> when it is given,
  else to \<open>console.error\<close>); the result set is unchanged, and the run goes on from the
  rest of the frontier. The emails of every page fetched with success, at any point of a
  run, are in the result of that run. A network error thrown by \<open>fetch\<close> and a response
  that is not \<open>ok\<close> are such failures.
\<close>

theorem page_failure_does_not_abort:
  "(toVisit st = e # rest \<longrightarrow> \<not> set_has (visited st) (url e) \<longrightarrow> int (depth e) \<le> maxDepth cfg \<longrightarrow>
      in_scope api cfg sd (url e) \<longrightarrow> fetch_page w cfg (url e) (depth e) = (evs, Inl t) \<longrightarrow>
        loop_body api w cfg sd st =
          st\<lparr>toVisit := rest, visited := visited st @ [url e],
             log := log st @ evs @
               [if onError cfg then OnError (url e) (to_error t)
                else ConsoleError (url e) (message (to_error t))]\<rparr> \<and>
        (loop_cond cfg st \<longrightarrow>
           run api w cfg sd st =
             run api w cfg sd
               (st\<lparr>toVisit := rest, visited := visited st @ [url e],
                   log := log st @ evs @
                     [if onError cfg then OnError (url e) (to_error t)
                      else ConsoleError (url e) (message (to_error t))]\<rparr>))) \<and>
   (toVisit st' = e' # rest' \<longrightarrow> \<not> set_has (visited st') (url e') \<longrightarrow>
      int (depth e') \<le> maxDepth cfg \<longrightarrow> in_scope api cfg sd (url e') \<longrightarrow> loop_cond cfg st' \<longrightarrow>
      fetch_page w cfg (url e') (depth e') = (evs', Inr (emails, html)) \<longrightarrow>
        set emails \<subseteq> set (allEmails (run api w cfg sd st'))) \<and>
   (fetch w u = Inl t \<longrightarrow> http_fetch w u d = ([HttpFetch u d], Inl t)) \<and>
   (fetch w u = Inr resp \<longrightarrow> \<not> ok resp \<longrightarrow>
      http_fetch w u d =
        ([HttpFetch u d], Inl (ThrownError (''HTTP error! status: '' @ show_int (status resp)))))"
proof (intro conjI impI)
  assume tv: "toVisit st = e # rest" and nv: "\<not> set_has (visited st) (url e)"
    and d: "int (depth e) \<le> maxDepth cfg" and sc: "in_scope api cfg sd (url e)"
    and f: "fetch_page w cfg (url e) (depth e) = (evs, Inl t)"
  let ?st = "st\<lparr>toVisit := rest, visited := visited st @ [url e],
             log := log st @ evs @
               [if onError cfg then OnError (url e) (to_error t)
                else ConsoleError (url e) (message (to_error t))]\<rparr>"
  from nv d sc have p: "passes api cfg sd (visited st) e"
    by (simp add: passes_iff)
  show lb: "loop_body api w cfg sd st = ?st"
    by (simp add: loop_body_process [OF tv p] log_process_page_failure [OF f] report_error_def)
  assume "loop_cond cfg st"
  then have "run api w cfg sd st = run api w cfg sd (loop_body api w cfg sd st)"
    by (simp add: run.simps [of api w cfg sd st])
  then show "run api w cfg sd st = run api w cfg sd ?st"
    by (simp only: lb)
next
  assume tv: "toVisit st' = e' # rest'" and nv: "\<not> set_has (visited st') (url e')"
    and d: "int (depth e') \<le> maxDepth cfg" and sc: "in_scope api cfg sd (url e')"
    and c: "loop_cond cfg st'"
    and f: "fetch_page w cfg (url e') (depth e') = (evs', Inr (emails, html))"
  from nv d sc have p: "passes api cfg sd (visited st') e'"
    by (simp add: passes_iff)
  have "set emails \<subseteq> set (allEmails (loop_body api w cfg sd st'))"
    by (simp add: loop_body_process [OF tv p] log_process_page_success(2) [OF f] set_foldl_set_add)
  then have "set emails \<subseteq> set (allEmails (run api w cfg sd (loop_body api w cfg sd st')))"
    by (rule allEmails_run_mono)
  with c show "set emails \<subseteq> set (allEmails (run api w cfg sd st'))"
    by (simp add: run.simps [of api w cfg sd st'])
next
  assume "fetch w u = Inl t"
  then show "http_fetch w u d = ([HttpFetch u d], Inl t)"
    by (simp add: http_fetch_def)
next
  assume "fetch w u = Inr resp" and "\<not> ok resp"
  then show "http_fetch w u d =
        ([HttpFetch u d], Inl (ThrownError (''HTTP error! status: '' @ show_int (status resp))))"
    by (simp add: http_fetch_def)
qed

lemma flaky_first_step:
  "crawl_steps basic_url_api flaky_site ''https://a.example'' plain_options 1 = flaky_after_start"
  by code_simp

lemma flaky_result:
  "crawl basic_url_api flaky_site ''https://a.example'' plain_options =
     \<lparr> toVisit = [],
       visited = [''https://a.example'', ''https://a.example/p1'', ''https://a.example/p2''],
       allEmails = [''info@a.example'', ''p2@a.example''],
       log = [HttpFetch ''https://a.example'' 0, OnPageVisited ''https://a.example'' 0 1,
              HttpFetch ''https://a.example/p1'' 1,
              OnError ''https://a.example/p1'' (JsError ''network down''),
              HttpFetch ''https://a.example/p2'' 1, OnPageVisited ''https://a.example/p2'' 1 1] \<rparr>"
  by code_simp

text \<open>
  Scenario E: the fetch of the second URL throws a network error; \<open>onError\<close> is called
  with that URL, the third URL is fetched and its address is in the result.
\<close>

theorem page_failure_does_not_abort_witness:
  "crawl_steps basic_url_api flaky_site ''https://a.example'' plain_options 1 = flaky_after_start \<and>
   fetch_page flaky_site (destructure plain_options) ''https://a.example/p1'' 1 =
     ([HttpFetch ''https://a.example/p1'' 1], Inl (ThrownError ''network down'')) \<and>
   loop_body basic_url_api flaky_site (destructure plain_options) ''a.example'' flaky_after_start =
     flaky_after_failure \<and>
   run basic_url_api flaky_site (destructure plain_options) ''a.example'' flaky_after_start =
     run basic_url_api flaky_site (destructure plain_options) ''a.example'' flaky_after_failure \<and>
   fetch_page flaky_site (destructure plain_options) ''https://a.example/p2'' 1 =
     ([HttpFetch ''https://a.example/p2'' 1], Inr ([''p2@a.example''], ''p2@a.example'')) \<and>
   set [''p2@a.example''] \<subseteq>
     set (allEmails (run basic_url_api flaky_site (destructure plain_options) ''a.example'' flaky_after_failure)) \<and>
   allEmails (crawl basic_url_api flaky_site ''https://a.example'' plain_options) =
     [''info@a.example'', ''p2@a.example''] \<and>
   http_fetch flaky_site ''https://a.example/p1'' 1 =
     ([HttpFetch ''https://a.example/p1'' 1], Inl (ThrownError ''network down''))"
proof -
  let ?cfg = "destructure plain_options"
  let ?e = "Entry ''https://a.example/p1'' 1"
  let ?e' = "Entry ''https://a.example/p2'' 1"
  have cfg: "maxDepth ?cfg = 3" "maxPages ?cfg = 50" "onError ?cfg" "sameDomainOnly ?cfg"
    by (simp_all add: plain_options_def destructure_def or_default_def)
  have tv: "toVisit flaky_after_start = ?e # [?e']"
    by (simp add: flaky_after_start_def)
  have nv: "\<not> set_has (visited flaky_after_start) (url ?e)"
    by (simp add: flaky_after_start_def set_has_def)
  have d: "int (depth ?e) \<le> maxDepth ?cfg"
    by (simp add: cfg)
  have sc: "in_scope basic_url_api ?cfg ''a.example'' (url ?e)"
    by code_simp
  have f: "fetch_page flaky_site ?cfg (url ?e) (depth ?e) =
             ([HttpFetch ''https://a.example/p1'' 1], Inl (ThrownError ''network down''))"
    by code_simp
  have c: "loop_cond ?cfg flaky_after_start"
    by (simp add: loop_cond_def flaky_after_start_def set_size_def cfg)
  have nf: "fetch flaky_site ''https://a.example/p1'' = Inl (ThrownError ''network down'')"
    by code_simp
  have tv': "toVisit flaky_after_failure = ?e' # []"
    by (simp add: flaky_after_failure_def)
  have nv': "\<not> set_has (visited flaky_after_failure) (url ?e')"
    by (simp add: flaky_after_failure_def set_has_def)
  have d': "int (depth ?e') \<le> maxDepth ?cfg"
    by (simp add: cfg)
  have sc': "in_scope basic_url_api ?cfg ''a.example'' (url ?e')"
    by code_simp
  have c': "loop_cond ?cfg flaky_after_failure"
    by (simp add: loop_cond_def flaky_after_failure_def set_size_def cfg)
  have f': "fetch_page flaky_site ?cfg (url ?e') (depth ?e') =
              ([HttpFetch ''https://a.example/p2'' 1], Inr ([''p2@a.example''], ''p2@a.example''))"
    by code_simp
  have upd: "flaky_after_start\<lparr>toVisit := [?e'], visited := visited flaky_after_start @ [url ?e],
       log := log flaky_after_start @ [HttpFetch ''https://a.example/p1'' 1] @
         [OnError ''https://a.example/p1'' (JsError ''network down'')]\<rparr> = flaky_after_failure"
    by (simp add: flaky_after_start_def flaky_after_failure_def)
  note t = page_failure_does_not_abort [where st = flaky_after_start and e = ?e and rest = "[?e']"
      and cfg = ?cfg and api = basic_url_api and sd = "''a.example''" and w = flaky_site
      and evs = "[HttpFetch ''https://a.example/p1'' 1]" and t = "ThrownError ''network down''"
      and st' = flaky_after_failure and e' = ?e' and rest' = "[]"
      and evs' = "[HttpFetch ''https://a.example/p2'' 1]" and emails = "[''p2@a.example'']"
      and html = "''p2@a.example''" and u = "''https://a.example/p1''" and d = 1]
  from t tv nv d sc f c nf tv' nv' d' sc' c' f' cfg(3) have
    "loop_body basic_url_api flaky_site ?cfg ''a.example'' flaky_after_start = flaky_after_failure \<and>
     run basic_url_api flaky_site ?cfg ''a.example'' flaky_after_start =
       run basic_url_api flaky_site ?cfg ''a.example'' flaky_after_failure \<and>
     set [''p2@a.example''] \<subseteq>
       set (allEmails (run basic_url_api flaky_site ?cfg ''a.example'' flaky_after_failure)) \<and>
     http_fetch flaky_site ''https://a.example/p1'' 1 =
       ([HttpFetch ''https://a.example/p1'' 1], Inl (ThrownError ''network down''))"
    using upd by simp
  with flaky_first_step flaky_result f f' show ?thesis
    by simp
qed

subsection \<open>Breadth-first order\<close>

lemma level_order_step:
  assumes inv: "level_order s" and c: "loop_cond cfg s"
  shows "level_order (loop_body api w cfg sd s)"
proof -
  from c obtain e rest where tv: "toVisit s = e # rest"
    by (cases "toVisit s") (auto simp: loop_cond_def)
  from frontier_after_iteration [OF tv, of api w cfg sd] obtain new where
    n: "toVisit (loop_body api w cfg sd s) = rest @ new"
    and dn: "\<forall>x\<in>set new. depth x = depth e + 1"
    by (auto simp: list_all_iff)
  from inv tv have srt: "sorted (map depth (attempts (log s)) @ depth e # map depth rest)"
    and spread: "\<forall>x\<in>set (e # rest). \<forall>y\<in>set (e # rest). depth y \<le> depth x + 1"
    by (simp_all add: level_order_def list_all_iff)
  from srt have a_le: "\<forall>a\<in>set (attempts (log s)). depth a \<le> depth e"
    and r_ge: "\<forall>x\<in>set rest. depth e \<le> depth x"
    and a_r: "\<forall>a\<in>set (attempts (log s)). \<forall>x\<in>set rest. depth a \<le> depth x"
    and s_a: "sorted (map depth (attempts (log s)))"
    and s_r: "sorted (map depth rest)"
    by (auto simp: sorted_append)
  from spread have r_le: "\<forall>x\<in>set rest. depth x \<le> depth e + 1"
    by simp
  have n_eq: "\<forall>x\<in>set new. depth x = Suc (depth e)"
    using dn by simp
  have s_n: "sorted (map depth new)"
    using n_eq by (simp add: sorted_iff_nth_mono)
  have s_rn: "sorted (map depth rest @ map depth new)"
    unfolding sorted_append
  proof (intro conjI ballI)
    fix x y
    assume "x \<in> set (map depth rest)" and "y \<in> set (map depth new)"
    then obtain a b where "a \<in> set rest" "x = depth a" "b \<in> set new" "y = depth b"
      by auto
    with r_le n_eq show "x \<le> y" by simp
  qed (rule s_r, rule s_n)
  have sp': "\<forall>x\<in>set (rest @ new). \<forall>y\<in>set (rest @ new). depth y \<le> depth x + 1"
  proof (intro ballI)
    fix x y
    assume x: "x \<in> set (rest @ new)" and y: "y \<in> set (rest @ new)"
    from x r_ge n_eq have lo: "depth e \<le> depth x" by auto
    from y r_le n_eq have hi: "depth y \<le> depth e + 1" by auto
    from lo hi show "depth y \<le> depth x + 1" by simp
  qed
  have low: "\<forall>a\<in>set (attempts (log s)). \<forall>x\<in>set (rest @ new). depth a \<le> depth x"
  proof (intro ballI)
    fix a x
    assume a: "a \<in> set (attempts (log s))" and x: "x \<in> set (rest @ new)"
    from x r_ge n_eq have "depth e \<le> depth x" by auto
    with a a_le show "depth a \<le> depth x" by fastforce
  qed
  have e_low: "\<forall>x\<in>set (rest @ new). depth e \<le> depth x"
    using r_ge n_eq by auto
  have skip: "sorted (map depth (attempts (log s)) @ map depth (rest @ new))"
    unfolding sorted_append using s_a s_rn low by auto
  have proc: "sorted (map depth (attempts (log s) @ [e]) @ map depth (rest @ new))"
    unfolding sorted_append map_append using s_a s_rn low e_low a_le
    by (auto simp: sorted_append)
  show ?thesis
  proof (cases "passes api cfg sd (visited s) e")
    case True
    with proc sp' show ?thesis
      by (simp add: level_order_def n attempts_loop_body [OF tv] list_all_iff)
  next
    case False
    with skip sp' show ?thesis
      by (simp add: level_order_def n attempts_loop_body [OF tv] list_all_iff)
  qed
qed

lemma level_order_initial: "level_order (initial_state startUrl)"
  by (simp add: level_order_def initial_state_def)

text \<open>
  Claim C7. The frontier is a queue: an iteration removes the head and appends the new
  entries, one level below the head, behind the entries already waiting; the head is the
  only entry it can hand to the fetch strategy. So the depths of the entries handed to the
  fetch strategy never decrease during a run.
\<close>

theorem breadth_first_order:
  "sorted (map depth (attempts (log (crawl_steps api w startUrl opts n)))) \<and>
   sorted (map depth (attempts (log (crawl api w startUrl opts)))) \<and>
   (toVisit st = e # rest \<longrightarrow>
      (\<exists>new. toVisit (loop_body api w cfg sd st) = rest @ new \<and>
         list_all (\<lambda>x. depth x = depth e + 1) new) \<and>
      (attempts (log (loop_body api w cfg sd st)) = attempts (log st) \<or>
       attempts (log (loop_body api w cfg sd st)) = attempts (log st) @ [e]))"
proof (intro conjI impI)
  have "level_order (crawl_steps api w startUrl opts n)"
    unfolding crawl_steps_def
    by (rule steps_invariant [where P = level_order, OF level_order_initial]) (rule level_order_step)
  then show "sorted (map depth (attempts (log (crawl_steps api w startUrl opts n))))"
    by (simp add: level_order_def sorted_append)
  have "level_order (crawl api w startUrl opts)"
    unfolding crawl_def
    by (rule run_invariant [where P = level_order, OF level_order_initial]) (rule level_order_step)
  then show "sorted (map depth (attempts (log (crawl api w startUrl opts))))"
    by (simp add: level_order_def sorted_append)
next
  assume tv: "toVisit st = e # rest"
  from frontier_after_iteration [OF tv, of api w cfg sd]
  show "\<exists>new. toVisit (loop_body api w cfg sd st) = rest @ new \<and>
         list_all (\<lambda>x. depth x = depth e + 1) new"
    by (auto simp: list_all_iff)
  show "attempts (log (loop_body api w cfg sd st)) = attempts (log st) \<or>
       attempts (log (loop_body api w cfg sd st)) = attempts (log st) @ [e]"
    by (simp add: attempts_loop_body [OF tv])
qed

lemma tree_two_steps:
  "crawl_steps basic_url_api tree_site ''https://a.example'' plain_options 2 = tree_after_two"
  by code_simp

lemma tree_four_steps:
  "crawl_steps basic_url_api tree_site ''https://a.example'' plain_options 4 = tree_after_four"
  by code_simp

text \<open>
  On the site above the pages are fetched at depths 0, 1, 1, 2: the second page of level 1
  comes before the page of level 2 found on the first.
\<close>

theorem breadth_first_order_witness:
  "toVisit tree_after_two = Entry ''https://a.example/p2'' 1 #
      [Entry ''https://a.example/p3'' 2, Entry ''https://a.example/p2'' 2] \<and>
   map depth (attempts (log (crawl_steps basic_url_api tree_site ''https://a.example'' plain_options 4))) =
     [0, 1, 1, 2] \<and>
   sorted (map depth (attempts (log (crawl_steps basic_url_api tree_site ''https://a.example'' plain_options 4)))) \<and>
   (\<exists>new. toVisit (loop_body basic_url_api tree_site (destructure plain_options) ''a.example'' tree_after_two) =
      [Entry ''https://a.example/p3'' 2, Entry ''https://a.example/p2'' 2] @ new \<and>
      list_all (\<lambda>x. depth x = 2) new)"
proof -
  have tv: "toVisit tree_after_two = Entry ''https://a.example/p2'' 1 #
      [Entry ''https://a.example/p3'' 2, Entry ''https://a.example/p2'' 2]"
    by (simp add: tree_after_two_def)
  have a: "map depth (attempts (log tree_after_four)) = [0, 1, 1, 2]"
    by (simp add: tree_after_four_def)
  note t = breadth_first_order [where api = basic_url_api and w = tree_site
      and startUrl = "''https://a.example''" and opts = plain_options and n = 4
      and st = tree_after_two and e = "Entry ''https://a.example/p2'' 1"
      and rest = "[Entry ''https://a.example/p3'' 2, Entry ''https://a.example/p2'' 2]"
      and cfg = "destructure plain_options" and sd = "''a.example''"]
  from t tv a show ?thesis
    by (auto simp: tree_four_steps numeral_2_eq_2)
qed

subsection \<open>Duplicates\<close>

lemma steps_stopped: "\<not> loop_cond cfg st \<Longrightarrow> steps api w cfg sd k st = st"
  by (cases k) simp_all

lemma steps_add: "steps api w cfg sd (m + k) st = steps api w cfg sd k (steps api w cfg sd m st)"
proof (induction m arbitrary: st)
  case 0
  then show ?case by simp
next
  case (Suc m)
  then show ?case by (simp add: steps_stopped)
qed

lemma steps_Suc_end:
  "steps api w cfg sd (Suc m) st =
     (if loop_cond cfg (steps api w cfg sd m st)
      then loop_body api w cfg sd (steps api w cfg sd m st)
      else steps api w cfg sd m st)"
proof -
  have "steps api w cfg sd (m + 1) st = steps api w cfg sd 1 (steps api w cfg sd m st)"
    by (rule steps_add)
  then show ?thesis by simp
qed

lemma visited_loop_body_mono: "set (visited s) \<subseteq> set (visited (loop_body api w cfg sd s))"
proof (cases "toVisit s")
  case Nil
  then show ?thesis by (simp add: loop_body_def)
next
  case (Cons e rest)
  show ?thesis
  proof (cases "passes api cfg sd (visited s) e")
    case True
    then show ?thesis by (auto simp: loop_body_process [OF Cons])
  next
    case False
    then show ?thesis by (simp add: loop_body_skip [OF Cons])
  qed
qed

lemma visited_steps_mono:
  assumes "x \<in> set (visited st)"
  shows "x \<in> set (visited (steps api w cfg sd k st))"
proof (rule steps_invariant [where P = "\<lambda>s. x \<in> set (visited s)", OF assms])
  fix s :: state
  assume "x \<in> set (visited s)"
  with visited_loop_body_mono [of s api w cfg sd]
  show "x \<in> set (visited (loop_body api w cfg sd s))" by blast
qed

lemma fetched_once_step:
  assumes inv: "fetched_once s" and c: "loop_cond cfg s"
  shows "fetched_once (loop_body api w cfg sd s)"
proof -
  from c obtain e rest where tv: "toVisit s = e # rest"
    by (cases "toVisit s") (auto simp: loop_cond_def)
  show ?thesis
  proof (cases "passes api cfg sd (visited s) e")
    case True
    with inv show ?thesis
      by (simp add: fetched_once_def loop_body_process [OF tv] passes_def set_has_def)
  next
    case False
    with inv show ?thesis
      by (simp add: fetched_once_def loop_body_skip [OF tv])
  qed
qed

lemma frontier_ok_step:
  assumes inv: "frontier_ok api cfg sd s" and c: "loop_cond cfg s"
  shows "frontier_ok api cfg sd (loop_body api w cfg sd s)"
proof -
  from c obtain e rest where tv: "toVisit s = e # rest"
    by (cases "toVisit s") (auto simp: loop_cond_def)
  from frontier_after_iteration [OF tv, of api w cfg sd] obtain new where
    n: "toVisit (loop_body api w cfg sd s) = rest @ new"
    and a: "\<forall>x\<in>set new. depth x = depth e + 1 \<and> int (depth e) < maxDepth cfg \<and> in_scope api cfg sd (url x)"
    by (auto simp: list_all_iff)
  from a have an: "list_all (admissible api cfg sd) new"
    by (auto simp: list_all_iff admissible_def)
  from inv show ?thesis
    unfolding frontier_ok_def [of api cfg sd s]
  proof
    assume "list_all (admissible api cfg sd) (toVisit s)"
    with tv an show ?thesis
      by (simp add: frontier_ok_def n)
  next
    assume "length (toVisit s) = 1 \<and> list_all (\<lambda>e. maxDepth cfg < int (depth e)) (toVisit s)"
    with tv have r: "rest = []" and deep: "maxDepth cfg < int (depth e)" by simp_all
    from deep have "\<not> passes api cfg sd (visited s) e"
      by (simp add: passes_def)
    with r show ?thesis
      by (simp add: frontier_ok_def loop_body_skip [OF tv])
  qed
qed

lemma frontier_ok_initial: "frontier_ok api cfg (getDomain api startUrl) (initial_state startUrl)"
  by (auto simp: frontier_ok_def initial_state_def admissible_def in_scope_def)

text \<open>Once an entry has left the frontier, its URL is marked, unless the run is over.\<close>

lemma dequeued_is_marked:
  assumes inv: "frontier_ok api cfg sd s" and tv: "toVisit s = e # rest"
  shows "url e \<in> set (visited (loop_body api w cfg sd s)) \<or> toVisit (loop_body api w cfg sd s) = []"
  using inv unfolding frontier_ok_def
proof
  assume "list_all (admissible api cfg sd) (toVisit s)"
  with tv have adm: "admissible api cfg sd e" by simp
  show ?thesis
  proof (cases "set_has (visited s) (url e)")
    case True
    with visited_loop_body_mono [of s api w cfg sd] show ?thesis
      by (auto simp: set_has_def)
  next
    case False
    with adm have "passes api cfg sd (visited s) e"
      by (simp add: passes_iff admissible_def)
    then show ?thesis
      by (simp add: loop_body_process [OF tv])
  qed
next
  assume "length (toVisit s) = 1 \<and> list_all (\<lambda>e. maxDepth cfg < int (depth e)) (toVisit s)"
  with tv have r: "rest = []" and deep: "maxDepth cfg < int (depth e)" by simp_all
  from deep have "\<not> passes api cfg sd (visited s) e"
    by (simp add: passes_def)
  with r show ?thesis
    by (simp add: loop_body_skip [OF tv])
qed

lemma later_duplicate_is_visited:
  assumes mn: "m < n"
    and c: "loop_cond cfg (steps api w cfg (getDomain api startUrl) m (initial_state startUrl))"
    and tm: "toVisit (steps api w cfg (getDomain api startUrl) m (initial_state startUrl)) = e' # r'"
    and tn: "toVisit (steps api w cfg (getDomain api startUrl) n (initial_state startUrl)) = e # r"
  shows "url e' \<in> set (visited (steps api w cfg (getDomain api startUrl) n (initial_state startUrl)))"
proof -
  let ?sd = "getDomain api startUrl"
  let ?S = "\<lambda>k. steps api w cfg ?sd k (initial_state startUrl)"
  have ok: "frontier_ok api cfg ?sd (?S m)"
    by (rule steps_invariant [where P = "frontier_ok api cfg ?sd", OF frontier_ok_initial])
       (rule frontier_ok_step)
  have next_m: "?S (Suc m) = loop_body api w cfg ?sd (?S m)"
    using c by (simp only: steps_Suc_end if_True)
  from mn obtain k where k: "n = Suc m + k"
    using less_iff_Suc_add by auto
  have Sn: "?S n = steps api w cfg ?sd k (?S (Suc m))"
    unfolding k by (rule steps_add)
  from dequeued_is_marked [OF ok tm, of w]
  show ?thesis
  proof
    assume "url e' \<in> set (visited (loop_body api w cfg ?sd (?S m)))"
    then have "url e' \<in> set (visited (?S (Suc m)))" by (simp only: next_m)
    then show ?thesis
      unfolding Sn by (rule visited_steps_mono)
  next
    assume "toVisit (loop_body api w cfg ?sd (?S m)) = []"
    then have "toVisit (?S (Suc m)) = []" by (simp only: next_m)
    then have "\<not> loop_cond cfg (?S (Suc m))" by (simp add: loop_cond_def)
    then have "?S n = ?S (Suc m)"
      unfolding Sn by (rule steps_stopped)
    with \<open>toVisit (?S (Suc m)) = []\<close> tn show ?thesis by simp
  qed
qed

text \<open>
  Claim C6. No URL is handed to the fetch strategy twice in a run. An entry whose URL is
  already marked is dropped without any event and without adding to the frontier, and no
  link to a marked URL is enqueued. When two entries with the same URL leave the frontier
  during a run, the later one is dropped: the first one decides the depth at which the URL
  is processed.
\<close>

theorem each_url_fetched_once:
  "distinct (map url (attempts (log (crawl_steps api w startUrl opts k)))) \<and>
   distinct (map url (attempts (log (crawl api w startUrl opts)))) \<and>
   (toVisit st = e # rest \<longrightarrow> set_has (visited st) (url e) \<longrightarrow>
      loop_body api w cfg sd st = st\<lparr>toVisit := rest\<rparr>) \<and>
   list_all (\<lambda>x. \<not> set_has vis (url x)) (new_entries api cfg sd vis d links) \<and>
   (m < n \<longrightarrow> loop_cond (destructure opts) (crawl_steps api w startUrl opts m) \<longrightarrow>
      toVisit (crawl_steps api w startUrl opts m) = e1 # r1 \<longrightarrow>
      toVisit (crawl_steps api w startUrl opts n) = e2 # r2 \<longrightarrow> url e2 = url e1 \<longrightarrow>
        loop_body api w (destructure opts) (getDomain api startUrl) (crawl_steps api w startUrl opts n) =
          (crawl_steps api w startUrl opts n)\<lparr>toVisit := r2\<rparr>)"
proof (intro conjI impI)
  have init: "fetched_once (initial_state startUrl)"
    by (simp add: fetched_once_def initial_state_def)
  have "fetched_once (crawl_steps api w startUrl opts k)"
    unfolding crawl_steps_def
    by (rule steps_invariant [where P = fetched_once, OF init]) (rule fetched_once_step)
  then show "distinct (map url (attempts (log (crawl_steps api w startUrl opts k))))"
    by (simp add: fetched_once_def)
  have "fetched_once (crawl api w startUrl opts)"
    unfolding crawl_def
    by (rule run_invariant [where P = fetched_once, OF init]) (rule fetched_once_step)
  then show "distinct (map url (attempts (log (crawl api w startUrl opts))))"
    by (simp add: fetched_once_def)
next
  assume tv: "toVisit st = e # rest" and "set_has (visited st) (url e)"
  then have "\<not> passes api cfg sd (visited st) e"
    by (simp add: passes_def)
  then show "loop_body api w cfg sd st = st\<lparr>toVisit := rest\<rparr>"
    by (rule loop_body_skip [OF tv])
next
  from new_entries_filtered [of d vis api cfg sd links]
  show "list_all (\<lambda>x. \<not> set_has vis (url x)) (new_entries api cfg sd vis d links)"
    by (simp add: list_all_iff)
next
  assume mn: "m < n"
    and c: "loop_cond (destructure opts) (crawl_steps api w startUrl opts m)"
    and tm: "toVisit (crawl_steps api w startUrl opts m) = e1 # r1"
    and tn: "toVisit (crawl_steps api w startUrl opts n) = e2 # r2"
    and same: "url e2 = url e1"
  from later_duplicate_is_visited [OF mn c [unfolded crawl_steps_def] tm [unfolded crawl_steps_def]
      tn [unfolded crawl_steps_def]]
  have "url e1 \<in> set (visited (crawl_steps api w startUrl opts n))"
    by (simp add: crawl_steps_def)
  with same have "\<not> passes api (destructure opts) (getDomain api startUrl)
                     (visited (crawl_steps api w startUrl opts n)) e2"
    by (simp add: passes_def set_has_def)
  then show "loop_body api w (destructure opts) (getDomain api startUrl) (crawl_steps api w startUrl opts n) =
          (crawl_steps api w startUrl opts n)\<lparr>toVisit := r2\<rparr>"
    by (rule loop_body_skip [OF tn])
qed

text \<open>
  On the site above \<open>/p2\<close> is enqueued at depth 1 and again at depth 2. It is fetched
  at depth 1; the entry at depth 2 is dropped.
\<close>

theorem each_url_fetched_once_witness:
  "crawl_steps basic_url_api tree_site ''https://a.example'' plain_options 2 = tree_after_two \<and>
   crawl_steps basic_url_api tree_site ''https://a.example'' plain_options 4 = tree_after_four \<and>
   (2::nat) < 4 \<and> loop_cond (destructure plain_options) tree_after_two \<and>
   toVisit tree_after_two = Entry ''https://a.example/p2'' 1 #
      [Entry ''https://a.example/p3'' 2, Entry ''https://a.example/p2'' 2] \<and>
   toVisit tree_after_four = Entry ''https://a.example/p2'' 2 # [] \<and>
   set_has (visited tree_after_four) ''https://a.example/p2'' \<and>
   loop_body basic_url_api tree_site (destructure plain_options) ''a.example'' tree_after_four =
     tree_after_four\<lparr>toVisit := []\<rparr> \<and>
   map url (attempts (log tree_after_four)) =
     [''https://a.example'', ''https://a.example/p1'', ''https://a.example/p2'', ''https://a.example/p3''] \<and>
   distinct (map url (attempts (log (crawl_steps basic_url_api tree_site ''https://a.example'' plain_options 4))))"
proof -
  let ?cfg = "destructure plain_options"
  have sd: "getDomain basic_url_api ''https://a.example'' = ''a.example''"
    by code_simp
  have c: "loop_cond ?cfg tree_after_two"
    by (simp add: loop_cond_def tree_after_two_def set_size_def plain_options_def destructure_def
        or_default_def)
  have t2: "toVisit tree_after_two = Entry ''https://a.example/p2'' 1 #
      [Entry ''https://a.example/p3'' 2, Entry ''https://a.example/p2'' 2]"
    by (simp add: tree_after_two_def)
  have t4: "toVisit tree_after_four = Entry ''https://a.example/p2'' 2 # []"
    by (simp add: tree_after_four_def)
  have v4: "set_has (visited tree_after_four) ''https://a.example/p2''"
    by (simp add: tree_after_four_def set_has_def)
  have a4: "map url (attempts (log tree_after_four)) =
     [''https://a.example'', ''https://a.example/p1'', ''https://a.example/p2'', ''https://a.example/p3'']"
    by (simp add: tree_after_four_def)
  note t = each_url_fetched_once [where api = basic_url_api and w = tree_site
      and startUrl = "''https://a.example''" and opts = plain_options and k = 4 and m = 2 and n = 4
      and ?e1.0 = "Entry ''https://a.example/p2'' 1"
      and ?r1.0 = "[Entry ''https://a.example/p3'' 2, Entry ''https://a.example/p2'' 2]"
      and ?e2.0 = "Entry ''https://a.example/p2'' 2" and ?r2.0 = "[]"]
  from t c t2 t4 v4 a4 show ?thesis
    by (simp add: tree_two_steps tree_four_steps sd)
qed

subsection \<open>Browser pages are closed\<close>

lemma scoped_append: "scoped cur xs \<Longrightarrow> scoped None ys \<Longrightarrow> scoped cur (xs @ ys)"
  by (induction xs arbitrary: cur) (auto split: option.splits)

lemma scoped_page_steps: "scoped (Some u) (fst (page_steps cfg pg u d) @ [PageClose u])"
  by (simp add: page_steps_def split: option.splits sum.splits)

lemma events_browser_fetch:
  "br u = Inr pg \<Longrightarrow>
   fst (browser_fetch cfg br u d) = PageOpened u d # fst (page_steps cfg pg u d) @ [PageClose u]"
  by (simp add: browser_fetch_def split: prod.splits option.splits)

lemma scoped_browser_fetch: "scoped None (fst (browser_fetch cfg br u d))"
proof (cases "br u")
  case (Inl t)
  then show ?thesis by (simp add: browser_fetch_def)
next
  case (Inr pg)
  with scoped_page_steps [of u cfg pg d] show ?thesis
    by (simp add: events_browser_fetch)
qed

lemma scoped_fetch_page: "scoped None (fst (fetch_page w cfg u d))"
  by (simp add: fetch_page_def scoped_browser_fetch split: option.splits)

lemma scoped_report_error: "scoped None [report_error cfg u t]"
  by (simp add: report_error_def)

lemma scoped_notify_visit: "scoped None (notify_visit cfg u d emails)"
  by (simp add: notify_visit_def)

lemma scoped_process_page:
  assumes "scoped None (log st)"
  shows "scoped None (log (process_page api w cfg sd u d st))"
proof -
  obtain evs res where f: "fetch_page w cfg u d = (evs, res)" by (cases "fetch_page w cfg u d")
  with scoped_fetch_page [of w cfg u d] have e: "scoped None evs" by simp
  show ?thesis
  proof (cases res)
    case (Inl t)
    from e scoped_report_error [of cfg u t] have "scoped None (evs @ [report_error cfg u t])"
      by (rule scoped_append)
    with assms have "scoped None (log st @ evs @ [report_error cfg u t])"
      by (rule scoped_append)
    with f Inl show ?thesis by (simp add: process_page_def)
  next
    case (Inr r)
    obtain emails html where r: "r = (emails, html)" by (cases r)
    from e scoped_notify_visit [of cfg u d emails] have "scoped None (evs @ notify_visit cfg u d emails)"
      by (rule scoped_append)
    with assms have "scoped None (log st @ evs @ notify_visit cfg u d emails)"
      by (rule scoped_append)
    with f Inr r show ?thesis by (simp add: process_page_def Let_def)
  qed
qed

lemma scoped_step:
  assumes inv: "scoped None (log s)" and c: "loop_cond cfg s"
  shows "scoped None (log (loop_body api w cfg sd s))"
proof -
  from c obtain e rest where tv: "toVisit s = e # rest"
    by (cases "toVisit s") (auto simp: loop_cond_def)
  show ?thesis
  proof (cases "passes api cfg sd (visited s) e")
    case True
    from inv have "scoped None (log (s\<lparr>toVisit := rest, visited := visited s @ [url e]\<rparr>))" by simp
    then show ?thesis
      unfolding loop_body_process [OF tv True] by (rule scoped_process_page)
  next
    case False
    with inv show ?thesis by (simp add: loop_body_skip [OF tv])
  qed
qed

text \<open>
  Claim C9. In the log of a run, at any point between iterations and at the end, every
  page that was opened is closed before anything else happens outside it. When \<open>newPage\<close>
  returns a page, the events of the fetch are the opening, the operations on the page and,
  last, the close, whatever the operations did; when \<open>newPage\<close> throws, no page was
  opened.
\<close>

theorem browser_page_always_closed:
  "scoped None (log (crawl_steps api w startUrl opts n)) \<and>
   scoped None (log (crawl api w startUrl opts)) \<and>
   (br u = Inr pg \<longrightarrow>
      fst (browser_fetch cfg br u d) = PageOpened u d # fst (page_steps cfg pg u d) @ [PageClose u]) \<and>
   (br u = Inl t \<longrightarrow> fst (browser_fetch cfg br u d) = [NewPageFailed u d])"
proof (intro conjI impI)
  have init: "scoped None (log (initial_state startUrl))"
    by (simp add: initial_state_def)
  show "scoped None (log (crawl_steps api w startUrl opts n))"
    unfolding crawl_steps_def
    by (rule steps_invariant [where P = "\<lambda>s. scoped None (log s)", OF init]) (rule scoped_step)
  show "scoped None (log (crawl api w startUrl opts))"
    unfolding crawl_def
    by (rule run_invariant [where P = "\<lambda>s. scoped None (log s)", OF init]) (rule scoped_step)
next
  assume "br u = Inr pg"
  then show "fst (browser_fetch cfg br u d) = PageOpened u d # fst (page_steps cfg pg u d) @ [PageClose u]"
    by (rule events_browser_fetch)
next
  assume "br u = Inl t"
  then show "fst (browser_fetch cfg br u d) = [NewPageFailed u d]"
    by (simp add: browser_fetch_def)
qed

lemma browser_run_log:
  "log (crawl basic_url_api lonely_site ''https://a.example'' browser_options) =
     [PageOpened ''https://a.example'' 0, PageGoto ''https://a.example'' 0,
      PageContent ''https://a.example'', PageScrape ''https://a.example'',
      PageClose ''https://a.example'', OnPageVisited ''https://a.example'' 0 1,
      PageOpened ''https://a.example/p1'' 1, PageGoto ''https://a.example/p1'' 1,
      PageClose ''https://a.example/p1'',
      OnError ''https://a.example/p1'' (JsError ''Timeout exceeded''),
      NewPageFailed ''https://a.example/p2'' 1,
      OnError ''https://a.example/p2'' (JsError ''browser has been closed'')]"
  by code_simp

text \<open>
  A browser whose second page times out in \<open>goto\<close> and that gives no third page: the
  second page is closed before the error is reported.
\<close>

theorem browser_page_always_closed_witness:
  "example_browser ''https://a.example/p1'' = Inr slow_page \<and>
   example_browser ''https://a.example/p2'' = Inl (ThrownError ''browser has been closed'') \<and>
   fst (browser_fetch (destructure browser_options) example_browser ''https://a.example/p1'' 1) =
     [PageOpened ''https://a.example/p1'' 1, PageGoto ''https://a.example/p1'' 1,
      PageClose ''https://a.example/p1''] \<and>
   fst (browser_fetch (destructure browser_options) example_browser ''https://a.example/p2'' 1) =
     [NewPageFailed ''https://a.example/p2'' 1] \<and>
   log (crawl basic_url_api lonely_site ''https://a.example'' browser_options) =
     [PageOpened ''https://a.example'' 0, PageGoto ''https://a.example'' 0,
      PageContent ''https://a.example'', PageScrape ''https://a.example'',
      PageClose ''https://a.example'', OnPageVisited ''https://a.example'' 0 1,
      PageOpened ''https://a.example/p1'' 1, PageGoto ''https://a.example/p1'' 1,
      PageClose ''https://a.example/p1'',
      OnError ''https://a.example/p1'' (JsError ''Timeout exceeded''),
      NewPageFailed ''https://a.example/p2'' 1,
      OnError ''https://a.example/p2'' (JsError ''browser has been closed'')] \<and>
   scoped None (log (crawl basic_url_api lonely_site ''https://a.example'' browser_options))"
proof -
  let ?cfg = "destructure browser_options"
  have b1: "example_browser ''https://a.example/p1'' = Inr slow_page"
    by (simp add: example_browser_def)
  have b2: "example_browser ''https://a.example/p2'' = Inl (ThrownError ''browser has been closed'')"
    by (simp add: example_browser_def)
  have ps: "fst (page_steps ?cfg slow_page ''https://a.example/p1'' 1) = [PageGoto ''https://a.example/p1'' 1]"
    by (simp add: page_steps_def slow_page_def)
  note t1 = browser_page_always_closed [where api = basic_url_api and w = lonely_site
      and startUrl = "''https://a.example''" and opts = browser_options and n = 3
      and br = example_browser and u = "''https://a.example/p1''" and pg = slow_page
      and cfg = ?cfg and d = 1]
  note t2 = browser_page_always_closed [where br = example_browser and u = "''https://a.example/p2''"
      and t = "ThrownError ''browser has been closed''" and cfg = ?cfg and d = 1,
      THEN conjunct2, THEN conjunct2, THEN conjunct2]
  from t1 t2 b1 b2 ps browser_run_log show ?thesis
    by simp
qed

subsection \<open>What extractLinks returns\<close>

lemma href_at_capture:
  assumes "href_at s = Some (h, rest)"
  shows "href_capture s h rest"
proof (cases s rule: href_at.cases)
  case (1 c1 c2 c3 c4 eq qt body)
  from assms 1 have kw: "is_href_keyword [c1, c2, c3, c4, eq]" and q1: "is_quote qt"
    and h: "h = takeWhile not_quote body" and ne: "h \<noteq> []"
    and d: "dropWhile not_quote body \<noteq> []" and rest: "rest = tl (dropWhile not_quote body)"
    by (auto simp: Let_def is_href_keyword_def split: if_splits)
  from d obtain q2 where q2: "dropWhile not_quote body = q2 # rest"
    using rest by (cases "dropWhile not_quote body") auto
  from q2 have "\<not> not_quote q2"
    by (metis hd_dropWhile list.distinct(1) list.sel(1))
  then have iq2: "is_quote q2" by (simp add: not_quote_def)
  have "body = h @ q2 # rest"
    using takeWhile_dropWhile_id [of not_quote body] h q2 by simp
  with 1 have "s = [c1, c2, c3, c4, eq] @ [qt] @ h @ [q2] @ rest" by simp
  moreover have "list_all not_quote h"
    unfolding h list_all_iff using set_takeWhileD by fastforce
  ultimately show ?thesis
    unfolding href_capture_def using kw q1 iq2 ne by blast
qed (use assms in auto)

lemma attrs_then_href_split:
  "attrs_then_href s = Some (h, rest) \<Longrightarrow>
   \<exists>mid tail. s = mid @ tail \<and> mid \<noteq> [] \<and> CHR ''>'' \<notin> set mid \<and> href_at tail = Some (h, rest)"
proof (induction s)
  case Nil
  then show ?case by simp
next
  case (Cons c s)
  from Cons.prems have c: "c \<noteq> CHR ''>''" by (auto split: if_splits)
  show ?case
  proof (cases "attrs_then_href s")
    case None
    with Cons.prems c have "href_at s = Some (h, rest)" by simp
    with c have "c # s = [c] @ s \<and> [c] \<noteq> [] \<and> CHR ''>'' \<notin> set [c] \<and> href_at s = Some (h, rest)"
      by simp
    then show ?thesis by blast
  next
    case (Some m)
    with Cons.prems c have "attrs_then_href s = Some (h, rest)" by simp
    from Cons.IH [OF this] obtain mid tail where
      "s = mid @ tail" "mid \<noteq> []" "CHR ''>'' \<notin> set mid" "href_at tail = Some (h, rest)"
      by blast
    with c have "c # s = (c # mid) @ tail \<and> c # mid \<noteq> [] \<and> CHR ''>'' \<notin> set (c # mid) \<and>
                 href_at tail = Some (h, rest)"
      by simp
    then show ?thesis by blast
  qed
qed

lemma match_here_capture:
  assumes "match_here s = Some (h, rest)"
  shows "pattern_capture s h"
proof (cases s rule: match_here.cases)
  case (1 lt a body)
  from assms 1 have lt: "lt = CHR ''<''" and a: "ci_eq CHR ''a'' CHR ''A'' a"
    and m: "attrs_then_href body = Some (h, rest)"
    by (auto split: if_splits)
  from attrs_then_href_split [OF m] obtain mid tail where
    b: "body = mid @ tail" and mid: "mid \<noteq> []" "CHR ''>'' \<notin> set mid"
    and at: "href_at tail = Some (h, rest)"
    by blast
  from href_at_capture [OF at] have q: "href_capture tail h rest" .
  from 1 lt b have "s = [] @ [CHR ''<'', a] @ mid @ tail" by simp
  with a mid q show ?thesis
    unfolding pattern_capture_def by blast
qed (use assms in auto)

lemma pattern_capture_prefix: "pattern_capture s h \<Longrightarrow> pattern_capture (pre @ s) h"
proof -
  assume "pattern_capture s h"
  then obtain p a mid tail rest where
    s: "s = p @ [CHR ''<'', a] @ mid @ tail" and r: "ci_eq CHR ''a'' CHR ''A'' a" "mid \<noteq> []"
      "CHR ''>'' \<notin> set mid" "href_capture tail h rest"
    unfolding pattern_capture_def by blast
  from s have "pre @ s = (pre @ p) @ [CHR ''<'', a] @ mid @ tail" by simp
  with r show ?thesis
    unfolding pattern_capture_def by blast
qed

lemma match_here_suffix:
  "match_here s = Some (h, rest) \<Longrightarrow> \<exists>used. s = used @ rest"
proof -
  assume m: "match_here s = Some (h, rest)"
  from match_here_capture [OF m] show ?thesis
  proof (cases s rule: match_here.cases)
    case (1 lt a body)
    from m 1 have "attrs_then_href body = Some (h, rest)" by (auto split: if_splits)
    from attrs_then_href_split [OF this] obtain mid tail where
      b: "body = mid @ tail" and at: "href_at tail = Some (h, rest)" by blast
    from href_at_capture [OF at] obtain kw q1 q2 where "tail = kw @ [q1] @ h @ [q2] @ rest"
      unfolding href_capture_def by blast
    with 1 b have "s = ([lt, a] @ mid @ kw @ [q1] @ h @ [q2]) @ rest" by simp
    then show ?thesis by blast
  qed (use m in auto)
qed

lemma scan_hrefs_capture: "h \<in> set (scan_hrefs s) \<Longrightarrow> pattern_capture s h"
proof (induction s arbitrary: h rule: scan_hrefs.induct)
  case 1
  then show ?case by simp
next
  case (2 c s)
  show ?case
  proof (cases "match_here (c # s)")
    case None
    with "2.prems" have "h \<in> set (scan_hrefs s)" by simp
    from "2.IH"(1) [OF None this] have "pattern_capture s h" .
    from pattern_capture_prefix [OF this, of "[c]"] show ?thesis by simp
  next
    case (Some m)
    obtain cap rest where m: "m = (cap, rest)" by (cases m)
    with Some "2.prems" have "h = cap \<or> h \<in> set (scan_hrefs rest)" by auto
    then show ?thesis
    proof
      assume "h = cap"
      with Some m show ?thesis by (simp add: match_here_capture)
    next
      assume "h \<in> set (scan_hrefs rest)"
      from "2.IH"(2) [OF Some m [symmetric] this] have a: "pattern_capture rest h" .
      from match_here_suffix Some m obtain used where "c # s = used @ rest" by blast
      with pattern_capture_prefix [OF a, of used] show ?thesis by simp
    qed
  qed
qed

lemma distinct_set_add: "distinct s \<Longrightarrow> distinct (set_add s x)"
  by (simp add: set_add_def)

lemma add_link_cases:
  "add_link api baseUrl links h =
     (case normalizeUrl api h baseUrl of
        None \<Rightarrow> links
      | Some n \<Rightarrow> if n = [] then links else set_add links n)"
  by (simp add: add_link_def)

lemma foldl_add_link:
  "distinct acc \<Longrightarrow>
   distinct (foldl (add_link api baseUrl) acc hs) \<and>
   set (foldl (add_link api baseUrl) acc hs) =
     set acc \<union> {n. n \<noteq> [] \<and> (\<exists>h\<in>set hs. normalizeUrl api h baseUrl = Some n)}"
proof (induction hs arbitrary: acc)
  case Nil
  then show ?case by simp
next
  case (Cons h hs)
  have d: "distinct (add_link api baseUrl acc h)"
    using Cons.prems by (simp add: add_link_def distinct_set_add split: option.splits)
  have s: "set (add_link api baseUrl acc h) =
           set acc \<union> {n. n \<noteq> [] \<and> normalizeUrl api h baseUrl = Some n}"
    by (auto simp: add_link_def set_add_def split: option.splits)
  from Cons.IH [OF d] s show ?case
    by auto
qed

text \<open>
  Claim C8 says that every link returned comes from the quoted \<open>href\<close> value of an
  anchor. It does not. In \<open><abbr title='t' data-href='/n'>\<close> there is no anchor and no
  \<open>href\<close> attribute, and the pattern captures \<open>/n\<close>. In \<open><A HREF="it's">\<close> the
  \<open>href\<close> value of the anchor is \<open>it's\<close>, and the pattern captures \<open>it\<close>. In both
  cases \<open>extractLinks\<close> returns a link that no anchor's \<open>href\<close> value resolves to
  (the platform resolves \<open>it's\<close> to a URL that ends in \<open>it's\<close> and the parser of the
  examples rejects it; neither gives the link returned, which ends in \<open>it\<close>).
\<close>

theorem extractLinks_anchor_href_counterexample:
  "spec_anchor_hrefs abbr_html = [] \<and>
   href_matches abbr_html = [''/n''] \<and>
   extractLinks basic_url_api abbr_html ''https://a.example'' = [''https://a.example/n''] \<and>
   \<not> spec_extractLinks_sound basic_url_api abbr_html ''https://a.example'' \<and>
   spec_anchor_hrefs apostrophe_html = [[CHR ''i'', CHR ''t'', CHR 0x27, CHR ''s'']] \<and>
   href_matches apostrophe_html = [''it''] \<and>
   extractLinks basic_url_api apostrophe_html ''https://a.example'' = [''https://a.example/it''] \<and>
   \<not> spec_extractLinks_sound basic_url_api apostrophe_html ''https://a.example''"
  by code_simp

text \<open>
  Claim C8, amended. \<open>extractLinks\<close> returns a list without repetition. Its elements are
  exactly the results of \<open>normalizeUrl\<close>, not empty, on the values the link pattern
  captures, and each captured value has the shape of a match of the pattern, which need not
  be the \<open>href\<close> value of an anchor. A result of \<open>normalizeUrl\<close> is the \<open>href\<close> of
  the value resolved against the base URL, after \<open>hash = ''\<close>. A captured value that the
  \<open>URL\<close> constructor rejects yields no result and adds nothing. The function has a value
  for every input: it does not throw.
\<close>

theorem extractLinks_resolves_captures:
  "distinct (extractLinks api html baseUrl) \<and>
   set (extractLinks api html baseUrl) =
     {n. n \<noteq> [] \<and> (\<exists>h\<in>set (href_matches html). normalizeUrl api h baseUrl = Some n)} \<and>
   list_all (pattern_capture html) (href_matches html) \<and>
   (normalizeUrl api h baseUrl = Some n \<longrightarrow>
      (\<exists>base resolved. url_new api baseUrl None = Some base \<and>
         url_new api h (Some base) = Some resolved \<and>
         n = url_href api (url_clear_hash api resolved))) \<and>
   (url_new api baseUrl None = Some base \<longrightarrow> url_new api h (Some base) = None \<longrightarrow>
      normalizeUrl api h baseUrl = None \<and> add_link api baseUrl links h = links)"
proof (intro conjI impI)
  from foldl_add_link [of "[]" api baseUrl "href_matches html"]
  show "distinct (extractLinks api html baseUrl)"
    and "set (extractLinks api html baseUrl) =
     {n. n \<noteq> [] \<and> (\<exists>h\<in>set (href_matches html). normalizeUrl api h baseUrl = Some n)}"
    by (simp_all add: extractLinks_def)
  show "list_all (pattern_capture html) (href_matches html)"
    by (simp add: list_all_iff href_matches_def scan_hrefs_capture)
next
  assume "normalizeUrl api h baseUrl = Some n"
  then show "\<exists>base resolved. url_new api baseUrl None = Some base \<and>
         url_new api h (Some base) = Some resolved \<and>
         n = url_href api (url_clear_hash api resolved)"
    by (auto simp: normalizeUrl_def split: option.splits)
next
  assume b: "url_new api baseUrl None = Some base" and r: "url_new api h (Some base) = None"
  then show n: "normalizeUrl api h baseUrl = None"
    by (simp add: normalizeUrl_def)
  then show "add_link api baseUrl links h = links"
    by (simp add: add_link_def)
qed

text \<open>
  Scenario C: on the page \<open>https://site.example/blog/post\<close> the link \<open>../about#team\<close>
  yields \<open>https://site.example/about\<close>; the link \<open>http://\<close> is skipped and the second
  link to the same page adds nothing.
\<close>

theorem extractLinks_resolves_captures_witness:
  "href_matches blog_post_html = [''../about#team'', ''http://'', ''../about''] \<and>
   normalizeUrl basic_url_api ''../about#team'' ''https://site.example/blog/post'' =
     Some ''https://site.example/about'' \<and>
   url_new basic_url_api ''https://site.example/blog/post'' None = Some blog_post_url \<and>
   url_new basic_url_api ''http://'' (Some blog_post_url) = None \<and>
   normalizeUrl basic_url_api ''http://'' ''https://site.example/blog/post'' = None \<and>
   extractLinks basic_url_api blog_post_html ''https://site.example/blog/post'' =
     [''https://site.example/about''] \<and>
   pattern_capture blog_post_html ''../about#team'' \<and>
   (\<exists>resolved. url_new basic_url_api ''../about#team'' (Some blog_post_url) = Some resolved \<and>
      ''https://site.example/about'' = url_href basic_url_api (url_clear_hash basic_url_api resolved))"
proof -
  have m: "href_matches blog_post_html = [''../about#team'', ''http://'', ''../about'']"
    by code_simp
  have n: "normalizeUrl basic_url_api ''../about#team'' ''https://site.example/blog/post'' =
     Some ''https://site.example/about''"
    by code_simp
  have b: "url_new basic_url_api ''https://site.example/blog/post'' None = Some blog_post_url"
    by code_simp
  have r: "url_new basic_url_api ''http://'' (Some blog_post_url) = None"
    by code_simp
  have x: "extractLinks basic_url_api blog_post_html ''https://site.example/blog/post'' =
     [''https://site.example/about'']"
    by code_simp
  note t = extractLinks_resolves_captures [where api = basic_url_api and html = blog_post_html
      and baseUrl = "''https://site.example/blog/post''" and h = "''../about#team''"
      and n = "''https://site.example/about''"]
  note t' = extractLinks_resolves_captures [where api = basic_url_api
      and baseUrl = "''https://site.example/blog/post''" and h = "''http://''"
      and base = blog_post_url and links = "[]", THEN conjunct2, THEN conjunct2, THEN conjunct2,
      THEN conjunct2]
  from t t' m n b r x show ?thesis
    by auto
qed

subsection \<open>The domain of a URL\<close>

text \<open>
  Claim C10. The domain of a URL is the \<open>hostname\<close> of its \<open>URL\<close> object and the empty
  string when the constructor throws. So a link whose hostname is that of the start URL is
  in scope, whatever its scheme and port: an iteration enqueues it when it is unvisited,
  and fetches it when it is the head of the frontier, unvisited and within the depth
  limit.
\<close>

theorem domain_is_hostname:
  "(url_new api u None = None \<longrightarrow> getDomain api u = []) \<and>
   (url_new api u None = Some x \<longrightarrow> getDomain api u = url_hostname api x) \<and>
   (url_new api link None = Some l \<longrightarrow> url_new api startUrl None = Some s \<longrightarrow>
      url_hostname api l = url_hostname api s \<longrightarrow>
        in_scope api cfg (getDomain api startUrl) link \<and>
        (link \<in> set links \<longrightarrow> \<not> set_has vis link \<longrightarrow>
           Entry link (d + 1) \<in> set (new_entries api cfg (getDomain api startUrl) vis d links)) \<and>
        (toVisit st = Entry link k # rest \<longrightarrow> \<not> set_has (visited st) link \<longrightarrow>
           int k \<le> maxDepth cfg \<longrightarrow>
             attempts (log (loop_body api w cfg (getDomain api startUrl) st)) =
               attempts (log st) @ [Entry link k]))"
proof (intro conjI impI)
  assume "url_new api u None = None"
  then show "getDomain api u = []" by (simp add: getDomain_def)
next
  assume "url_new api u None = Some x"
  then show "getDomain api u = url_hostname api x" by (simp add: getDomain_def)
next
  assume l: "url_new api link None = Some l" and s: "url_new api startUrl None = Some s"
    and h: "url_hostname api l = url_hostname api s"
  then have same: "getDomain api link = getDomain api startUrl"
    by (simp add: getDomain_def)
  then show sc: "in_scope api cfg (getDomain api startUrl) link"
    by (simp add: in_scope_def)
  {
    assume "link \<in> set links" and "\<not> set_has vis link"
    with sc show "Entry link (d + 1) \<in> set (new_entries api cfg (getDomain api startUrl) vis d links)"
      by (simp add: new_entries_def)
  }
  {
    assume tv: "toVisit st = Entry link k # rest" and nv: "\<not> set_has (visited st) link"
      and d: "int k \<le> maxDepth cfg"
    from nv d sc have "passes api cfg (getDomain api startUrl) (visited st) (Entry link k)"
      by (simp add: passes_iff)
    then show "attempts (log (loop_body api w cfg (getDomain api startUrl) st)) =
               attempts (log st) @ [Entry link k]"
      by (simp add: attempts_loop_body [OF tv])
  }
qed

lemma other_port_first_step:
  "crawl_steps basic_url_api other_port_site ''https://a.example'' plain_options 1 = other_port_after_start"
  by code_simp

lemma other_port_run:
  "map url (attempts (log (crawl basic_url_api other_port_site ''https://a.example'' plain_options))) =
     [''https://a.example'', ''http://a.example:8080/x'']"
  by code_simp

text \<open>
  \<open>http://a.example:8080/x\<close> is in scope for the start URL \<open>https://a.example\<close> and is
  fetched; \<open>not a url\<close> has the empty domain.
\<close>

theorem domain_is_hostname_witness:
  "url_new basic_url_api ''not a url'' None = None \<and> getDomain basic_url_api ''not a url'' = [] \<and>
   url_new basic_url_api ''http://a.example:8080/x'' None = Some other_port_url \<and>
   url_new basic_url_api ''https://a.example'' None = Some start_url \<and>
   url_hostname basic_url_api other_port_url = url_hostname basic_url_api start_url \<and>
   getDomain basic_url_api ''http://a.example:8080/x'' = ''a.example'' \<and>
   getDomain basic_url_api ''https://a.example'' = ''a.example'' \<and>
   sameDomainOnly (destructure plain_options) \<and>
   in_scope basic_url_api (destructure plain_options) ''a.example'' ''http://a.example:8080/x'' \<and>
   Entry ''http://a.example:8080/x'' 1 \<in>
     set (new_entries basic_url_api (destructure plain_options) ''a.example'' [''https://a.example''] 0
            [''http://a.example:8080/x'']) \<and>
   crawl_steps basic_url_api other_port_site ''https://a.example'' plain_options 1 = other_port_after_start \<and>
   attempts (log (loop_body basic_url_api other_port_site (destructure plain_options) ''a.example''
                    other_port_after_start)) =
     [Entry ''https://a.example'' 0, Entry ''http://a.example:8080/x'' 1] \<and>
   map url (attempts (log (crawl basic_url_api other_port_site ''https://a.example'' plain_options))) =
     [''https://a.example'', ''http://a.example:8080/x'']"
proof -
  have bad: "url_new basic_url_api ''not a url'' None = None"
    by code_simp
  have l: "url_new basic_url_api ''http://a.example:8080/x'' None = Some other_port_url"
    by code_simp
  have s: "url_new basic_url_api ''https://a.example'' None = Some start_url"
    by code_simp
  have h: "url_hostname basic_url_api other_port_url = url_hostname basic_url_api start_url"
    by (simp add: basic_url_api_def other_port_url_def start_url_def)
  have hs: "url_hostname basic_url_api start_url = ''a.example''"
    by (simp add: basic_url_api_def start_url_def)
  have sdo: "sameDomainOnly (destructure plain_options)"
    by (simp add: plain_options_def destructure_def or_default_def)
  note t1 = domain_is_hostname [where api = basic_url_api and u = "''not a url''", THEN conjunct1]
  note t2 = domain_is_hostname [where api = basic_url_api and u = "''http://a.example:8080/x''"
      and x = other_port_url, THEN conjunct2, THEN conjunct1]
  note t3 = domain_is_hostname [where api = basic_url_api and u = "''https://a.example''"
      and x = start_url and link = "''http://a.example:8080/x''" and l = other_port_url
      and startUrl = "''https://a.example''" and s = start_url and cfg = "destructure plain_options"
      and links = "[''http://a.example:8080/x'']" and vis = "[''https://a.example'']" and d = 0
      and st = other_port_after_start and k = 1 and rest = "[]" and w = other_port_site,
      THEN conjunct2]
  have tv: "toVisit other_port_after_start = Entry ''http://a.example:8080/x'' 1 # []"
    and nv: "\<not> set_has (visited other_port_after_start) ''http://a.example:8080/x''"
    and at: "attempts (log other_port_after_start) = [Entry ''https://a.example'' 0]"
    by (simp_all add: other_port_after_start_def set_has_def)
  have md: "int 1 \<le> maxDepth (destructure plain_options)"
    by (simp add: plain_options_def destructure_def or_default_def)
  have sd: "getDomain basic_url_api ''https://a.example'' = ''a.example''"
    using t3 s hs by simp
  from t1 t2 t3 [unfolded sd] bad l s h hs sdo tv nv at md other_port_run other_port_first_step sd
  show ?thesis
    by (simp add: set_has_def)
qed

end
